theory Spec2Isabelle
  imports Main "HOL-Library.Word" "HOL-Library.Sublist"
begin

section \<open>JavaScript strings\<close>

text \<open>
  A JavaScript string is a sequence of 16-bit code units; \<open>length\<close>, \<open>slice\<close>,
  \<open>startsWith\<close>, \<open>indexOf\<close> and \<open>===\<close> all work on code units. String literals
  of the source are ASCII and are written through \<open>ascii\<close>.
\<close>

type_synonym jsstring = "16 word list"

definition ascii :: "string \<Rightarrow> jsstring" where
  "ascii s = map of_char s"

text \<open>
  \<open>s.slice(start, end)\<close>: a negative index counts from the end, both indices are
  clamped to the string, and an empty range gives the empty string.
\<close>

definition js_slice :: "'a list \<Rightarrow> int \<Rightarrow> int \<Rightarrow> 'a list" where
  "js_slice s start end =
     (let len = int (length s);
          from = (if start < 0 then max (len + start) 0 else min start len);
          to = (if end < 0 then max (len + end) 0 else min end len)
      in take (nat (to - from)) (drop (nat from) s))"

definition js_slice_from :: "'a list \<Rightarrow> int \<Rightarrow> 'a list" where
  "js_slice_from s start = js_slice s start (int (length s))"

section \<open>Overlap-safe merge (client page)\<close>

text \<open>
  The loop of \<open>mergeWithOverlap\<close>: \<open>for (let k = max; k > 0; k--)\<close>, returning
  at the first \<open>k\<close> with \<open>prev.slice(-k) === fragment.slice(0, k)\<close>, and the plain
  concatenation when the loop runs out.
\<close>

fun overlapLoop :: "jsstring \<Rightarrow> jsstring \<Rightarrow> nat \<Rightarrow> jsstring" where
  "overlapLoop prev fragment 0 = prev @ fragment"
| "overlapLoop prev fragment (Suc k) =
     (if js_slice_from prev (- int (Suc k)) = js_slice fragment 0 (int (Suc k))
      then prev @ js_slice_from fragment (int (Suc k))
      else overlapLoop prev fragment k)"

text \<open>The version with the guard \<open>if (!prev || !fragment) return prev || fragment || ''\<close>.\<close>

definition mergeWithOverlap :: "jsstring \<Rightarrow> jsstring \<Rightarrow> jsstring" where
  "mergeWithOverlap prev fragment =
     (if prev = [] \<or> fragment = []
      then (if prev \<noteq> [] then prev else if fragment \<noteq> [] then fragment else [])
      else overlapLoop prev fragment (min (length prev) (length fragment)))"

text \<open>The older version of the page has the same loop without the guard.\<close>

definition mergeWithOverlap_unguarded :: "jsstring \<Rightarrow> jsstring \<Rightarrow> jsstring" where
  "mergeWithOverlap_unguarded prev fragment =
     overlapLoop prev fragment (min (length prev) (length fragment))"

text \<open>
  The specification's wording: \<open>k\<close> is an overlap of \<open>prev\<close> and \<open>fragment\<close> when it
  is bounded by both lengths and the last \<open>k\<close> code units of \<open>prev\<close> equal the first
  \<open>k\<close> of \<open>fragment\<close>.
\<close>

definition spec_overlap :: "jsstring \<Rightarrow> jsstring \<Rightarrow> nat \<Rightarrow> bool" where
  "spec_overlap prev fragment k \<longleftrightarrow>
     k \<le> min (length prev) (length fragment) \<and>
     drop (length prev - k) prev = take k fragment"

text \<open>The overlap the loop settles on when started at \<open>n\<close>: the first hit going down, or 0.\<close>

fun overlapFound :: "jsstring \<Rightarrow> jsstring \<Rightarrow> nat \<Rightarrow> nat" where
  "overlapFound prev fragment 0 = 0"
| "overlapFound prev fragment (Suc k) =
     (if js_slice_from prev (- int (Suc k)) = js_slice fragment 0 (int (Suc k))
      then Suc k else overlapFound prev fragment k)"

definition overlapLen :: "jsstring \<Rightarrow> jsstring \<Rightarrow> nat" where
  "overlapLen prev fragment = overlapFound prev fragment (min (length prev) (length fragment))"

section \<open>String helpers of the filter\<close>

text \<open>
  White space as \<open>String.prototype.trim\<close> and the regular expression class \<open>\s\<close> see
  it: the ECMAScript WhiteSpace and LineTerminator code units.
\<close>

definition isWhiteSpace :: "16 word \<Rightarrow> bool" where
  "isWhiteSpace c \<longleftrightarrow>
     c = 0x09 \<or> c = 0x0A \<or> c = 0x0B \<or> c = 0x0C \<or> c = 0x0D \<or> c = 0x20 \<or>
     c = 0xA0 \<or> c = 0x1680 \<or> (0x2000 \<le> c \<and> c \<le> 0x200A) \<or>
     c = 0x2028 \<or> c = 0x2029 \<or> c = 0x202F \<or> c = 0x205F \<or> c = 0x3000 \<or> c = 0xFEFF"

definition js_trim :: "jsstring \<Rightarrow> jsstring" where
  "js_trim s = rev (dropWhile isWhiteSpace (rev (dropWhile isWhiteSpace s)))"

definition startsWith :: "jsstring \<Rightarrow> jsstring \<Rightarrow> bool" where
  "startsWith s pat = prefix pat s"

text \<open>\<open>s.indexOf(pat)\<close>, with \<open>None\<close> for \<open>-1\<close>.\<close>

fun js_indexOf :: "jsstring \<Rightarrow> jsstring \<Rightarrow> nat option" where
  "js_indexOf [] pat = (if pat = [] then Some 0 else None)"
| "js_indexOf (c # cs) pat =
     (if prefix pat (c # cs) then Some 0 else map_option Suc (js_indexOf cs pat))"

definition js_includes :: "jsstring \<Rightarrow> jsstring \<Rightarrow> bool" where
  "js_includes s pat \<longleftrightarrow> js_indexOf s pat \<noteq> None"

text \<open>\<open>s.split('\n')\<close>: the pieces between line feeds; the empty string gives one empty piece.\<close>

fun splitFrom :: "jsstring \<Rightarrow> jsstring \<Rightarrow> jsstring list" where
  "splitFrom cur [] = [cur]"
| "splitFrom cur (c # cs) =
     (if c = 0x0A then cur # splitFrom [] cs else splitFrom (cur @ [c]) cs)"

definition split_lines :: "jsstring \<Rightarrow> jsstring list" where
  "split_lines s = splitFrom [] s"

text \<open>\<open>line.replace(/\s+/g, '')\<close>: every run of white space removed.\<close>

definition removeWhitespace :: "jsstring \<Rightarrow> jsstring" where
  "removeWhitespace line = filter (\<lambda>c. \<not> isWhiteSpace c) line"

text \<open>
  Matching with the flag \<open>i\<close> (no flag \<open>u\<close>): a code unit matches an ASCII letter of the
  pattern exactly when it is that letter in either case; no code unit above 127 is
  canonicalised to an ASCII letter.
\<close>

definition asciiFold :: "16 word \<Rightarrow> 16 word" where
  "asciiFold c = (if 0x41 \<le> c \<and> c \<le> 0x5A then c + 0x20 else c)"

definition matchLiteralCI :: "string \<Rightarrow> jsstring \<Rightarrow> bool" where
  "matchLiteralCI pat s \<longleftrightarrow>
     length pat \<le> length s \<and>
     map asciiFold (take (length pat) s) = map asciiFold (ascii pat)"

definition isDigit :: "16 word \<Rightarrow> bool" where
  "isDigit c \<longleftrightarrow> 0x30 \<le> c \<and> c \<le> 0x39"

text \<open>\<open>\d+\<close> at the start of \<open>s\<close>, returning what follows the digits.\<close>

definition digits1 :: "jsstring \<Rightarrow> jsstring option" where
  "digits1 s = (case s of [] \<Rightarrow> None
                | c # cs \<Rightarrow> if isDigit c then Some (dropWhile isDigit cs) else None)"

text \<open>\<open>\.\<close> at the start of \<open>s\<close>.\<close>

definition dot1 :: "jsstring \<Rightarrow> jsstring option" where
  "dot1 s = (case s of [] \<Rightarrow> None | c # cs \<Rightarrow> if c = 0x2E then Some cs else None)"

text \<open>\<open>v\d+\.\d+\.\d+\<close> (flag \<open>i\<close>) at the start of \<open>s\<close>.\<close>

definition matchSemver :: "jsstring \<Rightarrow> bool" where
  "matchSemver s =
     (case s of [] \<Rightarrow> False
      | v # r \<Rightarrow> asciiFold v = 0x76 \<and>
          Option.bind (Option.bind (Option.bind (Option.bind (digits1 r) dot1) digits1) dot1) digits1
            \<noteq> None)"

text \<open>A regular expression without anchors matches when it matches at some position.\<close>

fun anywhere :: "(jsstring \<Rightarrow> bool) \<Rightarrow> jsstring \<Rightarrow> bool" where
  "anywhere P [] = P []"
| "anywhere P (c # cs) = (P (c # cs) \<or> anywhere P cs)"

text \<open>\<open>line.match(/version|v\d+\.\d+\.\d+/i)\<close> is truthy.\<close>

definition matchesVersion :: "jsstring \<Rightarrow> bool" where
  "matchesVersion line = anywhere (\<lambda>t. matchLiteralCI ''version'' t \<or> matchSemver t) line"

text \<open>\<open>line.match(/dependencies|devDependencies|peerDependencies/i)\<close> is truthy.\<close>

definition matchesDependencies :: "jsstring \<Rightarrow> bool" where
  "matchesDependencies line =
     anywhere (\<lambda>t. matchLiteralCI ''dependencies'' t \<or> matchLiteralCI ''devDependencies'' t
                  \<or> matchLiteralCI ''peerDependencies'' t) line"

section \<open>Meaningful-change counter (pr-filters)\<close>

text \<open>\<open>isMeaningfulCodeChange\<close> of \<open>src/lib/pr-filters.ts\<close>.\<close>

definition isMeaningfulCodeChange :: "jsstring \<Rightarrow> bool" where
  "isMeaningfulCodeChange line =
     (if js_trim line = [] \<or> startsWith (js_trim line) (ascii ''//'')
           \<or> startsWith (js_trim line) (ascii ''/*'')
      then False
      else if removeWhitespace line = ascii ''+'' \<or> removeWhitespace line = ascii ''-''
      then False
      else True)"

definition countMeaningfulChanges :: "jsstring \<Rightarrow> nat" where
  "countMeaningfulChanges diff =
     length (filter isMeaningfulCodeChange
       (filter (\<lambda>line. startsWith line (ascii ''+'') \<or> startsWith line (ascii ''-''))
          (split_lines diff)))"

text \<open>
  The second copy of pr-filters (the stricter counter): the same tests, then the version
  and the dependency patterns.
\<close>

definition isMeaningfulCodeChange_strict :: "jsstring \<Rightarrow> bool" where
  "isMeaningfulCodeChange_strict line =
     (if js_trim line = [] \<or> startsWith (js_trim line) (ascii ''//'')
           \<or> startsWith (js_trim line) (ascii ''/*'')
      then False
      else if removeWhitespace line = ascii ''+'' \<or> removeWhitespace line = ascii ''-''
      then False
      else if matchesVersion line then False
      else if matchesDependencies line then False
      else True)"

definition countMeaningfulChanges_strict :: "jsstring \<Rightarrow> nat" where
  "countMeaningfulChanges_strict diff =
     length (filter isMeaningfulCodeChange_strict
       (filter (\<lambda>line. startsWith line (ascii ''+'') \<or> startsWith line (ascii ''-''))
          (split_lines diff)))"

text \<open>
  The wording of the specification for the counter: a changed line, a line that is white
  space only apart from its marker, a line matching the version or dependency patterns,
  and a unified-diff file header.
\<close>

definition isChangeLine :: "jsstring \<Rightarrow> bool" where
  "isChangeLine line \<longleftrightarrow> startsWith line (ascii ''+'') \<or> startsWith line (ascii ''-'')"

definition whitespaceOnly :: "jsstring \<Rightarrow> bool" where
  "whitespaceOnly line \<longleftrightarrow>
     removeWhitespace line = ascii ''+'' \<or> removeWhitespace line = ascii ''-''"

definition versionOrDependency :: "jsstring \<Rightarrow> bool" where
  "versionOrDependency line \<longleftrightarrow> matchesVersion line \<or> matchesDependencies line"

definition isFileHeader :: "jsstring \<Rightarrow> bool" where
  "isFileHeader line \<longleftrightarrow> startsWith line (ascii ''+++ '') \<or> startsWith line (ascii ''--- '')"

section \<open>Relevance filter (pr-filters)\<close>

record PRFilter =
  minDiffSize :: int
  excludePatterns :: "jsstring list"
  minCodeChanges :: int
  excludeLabels :: "jsstring list"
  includeLabels :: "jsstring list"

record DiffItem =
  item_id :: jsstring
  description :: jsstring
  diff :: jsstring
  url :: jsstring

text \<open>\<open>DEFAULT_FILTERS\<close> of \<open>src/lib/pr-filters.ts\<close> (thresholds 10 and 3).\<close>

definition DEFAULT_FILTERS :: PRFilter where
  "DEFAULT_FILTERS =
     \<lparr> minDiffSize = 10,
       excludePatterns = map ascii
         [''docs'', ''typos'', ''formatting'', ''chore'', ''style'', ''lint'',
          ''bump'', ''update'', ''deps'', ''dependency'', ''version''],
       minCodeChanges = 3,
       excludeLabels = map ascii
         [''documentation'', ''chore'', ''style'', ''dependencies'',
          ''maintenance'', ''housekeeping''],
       includeLabels = map ascii
         [''feature'', ''enhancement'', ''bugfix'', ''fix'', ''performance'',
          ''security'', ''refactor''] \<rparr>"

text \<open>\<open>DEFAULT_FILTERS\<close> of the second copy of pr-filters (thresholds 4 and 2).\<close>

definition DEFAULT_FILTERS_permissive :: PRFilter where
  "DEFAULT_FILTERS_permissive =
     \<lparr> minDiffSize = 4,
       excludePatterns = map ascii
         [''typos'', ''formatting'', ''style'', ''lint'',
          ''bump'', ''update'', ''deps'', ''dependency'', ''version'',
          ''chore'', ''docs'', ''test'', ''ci'', ''build'',
          ''minor'', ''patch'', ''trivial'', ''cleanup''],
       minCodeChanges = 2,
       excludeLabels = map ascii
         [''documentation'', ''chore'', ''style'', ''dependencies'',
          ''maintenance'', ''housekeeping'', ''tests'', ''ci'',
          ''build'', ''minor'', ''patch'', ''trivial''],
       includeLabels = map ascii
         [''feature'', ''enhancement'', ''bugfix'', ''fix'',
          ''performance'', ''security'', ''refactor'', ''breaking'', ''release''] \<rparr>"

text \<open>
  \<open>isRelevantPR\<close> has the same text in both copies of pr-filters and calls the counter
  of its own file, here the parameter \<open>count\<close>. The built-in \<open>toLowerCase\<close> (the Unicode
  case mapping of the platform) is the parameter \<open>lower\<close>.
\<close>

definition isRelevantPR_with ::
  "(jsstring \<Rightarrow> nat) \<Rightarrow> (jsstring \<Rightarrow> jsstring) \<Rightarrow> DiffItem \<Rightarrow> PRFilter \<Rightarrow> bool" where
  "isRelevantPR_with count lower pr flt =
     (if list_ex (\<lambda>pattern. js_includes (lower (description pr)) (lower pattern))
           (excludePatterns flt)
      then False
      else if int (length (split_lines (diff pr))) < minDiffSize flt
      then False
      else if int (count (diff pr)) < minCodeChanges flt
      then False
      else if list_ex (\<lambda>label. js_includes (lower (description pr)) (lower label))
           (excludeLabels flt)
      then False
      else if length (includeLabels flt) > 0 \<and>
           \<not> list_ex (\<lambda>label. js_includes (lower (description pr)) (lower label))
               (includeLabels flt)
      then False
      else True)"

definition isRelevantPR :: "(jsstring \<Rightarrow> jsstring) \<Rightarrow> DiffItem \<Rightarrow> PRFilter \<Rightarrow> bool" where
  "isRelevantPR = isRelevantPR_with countMeaningfulChanges"

definition isRelevantPR_permissive ::
  "(jsstring \<Rightarrow> jsstring) \<Rightarrow> DiffItem \<Rightarrow> PRFilter \<Rightarrow> bool" where
  "isRelevantPR_permissive = isRelevantPR_with countMeaningfulChanges_strict"

text \<open>\<open>filterPRs\<close> of \<open>src/lib/pr-filters.ts\<close>: \<open>prs.filter(...).slice(0, 5)\<close>.\<close>

definition filterPRs ::
  "(jsstring \<Rightarrow> jsstring) \<Rightarrow> DiffItem list \<Rightarrow> PRFilter \<Rightarrow> DiffItem list" where
  "filterPRs lower prs flt =
     js_slice (List.filter (\<lambda>pr. isRelevantPR lower pr flt) prs) 0 5"

text \<open>\<open>filterPRs\<close> of the second copy: \<open>prs.filter(...)\<close> with no slice.\<close>

definition filterPRs_permissive ::
  "(jsstring \<Rightarrow> jsstring) \<Rightarrow> DiffItem list \<Rightarrow> PRFilter \<Rightarrow> DiffItem list" where
  "filterPRs_permissive lower prs flt =
     List.filter (\<lambda>pr. isRelevantPR_permissive lower pr flt) prs"

text \<open>
  \<open>toLowerCase\<close> on ASCII text, for evaluating the filter on concrete ASCII inputs, where
  it agrees with the built-in.
\<close>

definition asciiLower :: "jsstring \<Rightarrow> jsstring" where
  "asciiLower s = map asciiFold s"

text \<open>Six items every rule of both presets accepts, with identifiers 1 to 6.\<close>

definition tenLineDiff :: jsstring where
  "tenLineDiff = ascii ''+a'' @ concat (replicate 9 (0x0A # ascii ''+b''))"

definition acceptedItem :: "string \<Rightarrow> DiffItem" where
  "acceptedItem i = \<lparr> item_id = ascii i, description = ascii ''fix parser crash'',
                       diff = tenLineDiff, url = ascii ''u'' \<rparr>"

definition sixItems :: "DiffItem list" where
  "sixItems = map acceptedItem [''1'', ''2'', ''3'', ''4'', ''5'', ''6'']"

section \<open>Stream frames and their text records (generate-notes route)\<close>

datatype Section = Developer | Marketing

definition sectionName :: "Section \<Rightarrow> jsstring" where
  "sectionName s = (case s of Developer \<Rightarrow> ascii ''developer'' | Marketing \<Rightarrow> ascii ''marketing'')"

text \<open>
  The frames the route writes: a content fragment and a completion marker of one section
  of one item (through \<open>send\<close>), and an error message (through \<open>sendError\<close>).
\<close>

datatype frame =
    ContentFrame jsstring Section jsstring
  | DoneFrame jsstring Section
  | ErrorFrame jsstring

text \<open>The \<open>obj\<close> argument of \<open>send\<close>: \<open>{ content }\<close> or \<open>{ done: true }\<close>.\<close>

datatype sendObj = ContentObj jsstring | DoneObj

definition frameOf :: "jsstring \<Rightarrow> Section \<Rightarrow> sendObj \<Rightarrow> frame" where
  "frameOf prId section obj =
     (case obj of ContentObj c \<Rightarrow> ContentFrame prId section c
      | DoneObj \<Rightarrow> DoneFrame prId section)"

text \<open>
  \<open>JSON.stringify\<close> of a string (QuoteJSONString): the two-character escapes, \<open>\uXXXX\<close>
  with lower-case digits for the other control characters and for a surrogate that is not
  part of a pair, every other code unit as it is.
\<close>

definition hexDigit :: "nat \<Rightarrow> 16 word" where
  "hexDigit n = ascii ''0123456789abcdef'' ! (n mod 16)"

definition unicodeEscape :: "16 word \<Rightarrow> jsstring" where
  "unicodeEscape c =
     [0x5C, 0x75, hexDigit (unat c div 4096), hexDigit (unat c div 256),
      hexDigit (unat c div 16), hexDigit (unat c)]"

definition isHighSurrogate :: "16 word \<Rightarrow> bool" where
  "isHighSurrogate c \<longleftrightarrow> 0xD800 \<le> c \<and> c \<le> 0xDBFF"

definition isLowSurrogate :: "16 word \<Rightarrow> bool" where
  "isLowSurrogate c \<longleftrightarrow> 0xDC00 \<le> c \<and> c \<le> 0xDFFF"

text \<open>One code unit that is not part of a surrogate pair.\<close>

definition escapeUnit :: "16 word \<Rightarrow> jsstring" where
  "escapeUnit c =
     (if c = 0x08 then [0x5C, 0x62]
      else if c = 0x09 then [0x5C, 0x74]
      else if c = 0x0A then [0x5C, 0x6E]
      else if c = 0x0C then [0x5C, 0x66]
      else if c = 0x0D then [0x5C, 0x72]
      else if c = 0x22 then [0x5C, 0x22]
      else if c = 0x5C then [0x5C, 0x5C]
      else if c < 0x20 \<or> isHighSurrogate c \<or> isLowSurrogate c then unicodeEscape c
      else [c])"

text \<open>The code points of the string in turn: a surrogate pair stays as it is.\<close>

fun jsonEscape :: "jsstring \<Rightarrow> jsstring" where
  "jsonEscape [] = []"
| "jsonEscape [c] = escapeUnit c"
| "jsonEscape (c # d # ds) =
     (if isHighSurrogate c \<and> isLowSurrogate d then c # d # jsonEscape ds
      else escapeUnit c @ jsonEscape (d # ds))"

definition quoteJSONString :: "jsstring \<Rightarrow> jsstring" where
  "quoteJSONString s = [0x22] @ jsonEscape s @ [0x22]"

text \<open>A property \<open>"key":\<close> of an object literal with an ASCII key.\<close>

definition jsonKey :: "string \<Rightarrow> jsstring" where
  "jsonKey k = [0x22] @ ascii k @ [0x22, 0x3A]"

text \<open>\<open>JSON.stringify({ prId: pr.id, section, ...obj })\<close> for the two shapes of \<open>obj\<close>.\<close>

definition stringifySend :: "jsstring \<Rightarrow> Section \<Rightarrow> sendObj \<Rightarrow> jsstring" where
  "stringifySend prId section obj =
     ascii ''{'' @ jsonKey ''prId'' @ quoteJSONString prId @ ascii '','' @
     jsonKey ''section'' @ quoteJSONString (sectionName section) @ ascii '','' @
     (case obj of
        ContentObj c \<Rightarrow> jsonKey ''content'' @ quoteJSONString c
      | DoneObj \<Rightarrow> jsonKey ''done'' @ ascii ''true'') @
     ascii ''}''"

text \<open>\<open>JSON.stringify({ message })\<close>.\<close>

definition stringifyMessage :: "jsstring \<Rightarrow> jsstring" where
  "stringifyMessage message =
     ascii ''{'' @ jsonKey ''message'' @ quoteJSONString message @ ascii ''}''"

text \<open>The JSON text of a frame, and the record written for it.\<close>

definition frameJson :: "frame \<Rightarrow> jsstring" where
  "frameJson f =
     (case f of
        ContentFrame prId section c \<Rightarrow> stringifySend prId section (ContentObj c)
      | DoneFrame prId section \<Rightarrow> stringifySend prId section DoneObj
      | ErrorFrame message \<Rightarrow> stringifyMessage message)"

definition encodeFrame :: "frame \<Rightarrow> jsstring" where
  "encodeFrame f =
     (case f of
        ErrorFrame message \<Rightarrow>
          ascii ''event: error'' @ [0x0A] @ ascii ''data: '' @ frameJson f @ [0x0A, 0x0A]
      | _ \<Rightarrow> ascii ''data: '' @ frameJson f @ [0x0A, 0x0A])"

definition isErrorFrame :: "frame \<Rightarrow> bool" where
  "isErrorFrame f = (case f of ErrorFrame _ \<Rightarrow> True | _ \<Rightarrow> False)"

section \<open>The orchestrator (generate-notes route)\<close>

text \<open>A thrown value: an \<open>Error\<close> with its message, or something that is not an \<open>Error\<close>.\<close>

datatype thrown = ErrorObject jsstring | OtherValue

text \<open>
  The writer of the response stream. The transport decides for each write, by its number,
  whether the stream takes it (\<open>None\<close>) or fails with some error. A write that is taken
  appends its frame, whose record is \<open>encodeFrame\<close> of it. A write that fails leaves the
  stream errored: every later write is rejected with the stored error, and \<open>close()\<close>
  is rejected too.
\<close>

record writer =
  written :: "frame list"
  attempts :: nat
  errored :: "thrown option"
  closed :: bool

type_synonym transport = "nat \<Rightarrow> thrown option"

definition newWriter :: writer where
  "newWriter = \<lparr>written = [], attempts = 0, errored = None, closed = False\<rparr>"

definition writer_write :: "transport \<Rightarrow> frame \<Rightarrow> writer \<Rightarrow> thrown option \<times> writer" where
  "writer_write tr f w =
     (case errored w of
        Some e \<Rightarrow> (Some e, w\<lparr>attempts := Suc (attempts w)\<rparr>)
      | None \<Rightarrow>
          (case tr (attempts w) of
             None \<Rightarrow> (None, w\<lparr>written := written w @ [f], attempts := Suc (attempts w)\<rparr>)
           | Some e \<Rightarrow> (Some e, w\<lparr>attempts := Suc (attempts w), errored := Some e\<rparr>)))"

text \<open>\<open>writer.close()\<close>: resolves on a stream that is not errored, and is rejected otherwise.\<close>

definition writer_close :: "writer \<Rightarrow> bool \<times> writer" where
  "writer_close w = (if errored w = None then (True, w\<lparr>closed := True\<rparr>) else (False, w))"

text \<open>Sequencing of two steps, the second skipped when the first throws.\<close>

definition andThen ::
  "thrown option \<times> writer \<Rightarrow> (writer \<Rightarrow> thrown option \<times> writer) \<Rightarrow> thrown option \<times> writer" where
  "andThen r k = (case r of (None, w) \<Rightarrow> k w | (Some e, w) \<Rightarrow> (Some e, w))"

definition sendError :: "transport \<Rightarrow> jsstring \<Rightarrow> writer \<Rightarrow> thrown option \<times> writer" where
  "sendError tr message w = writer_write tr (ErrorFrame message) w"

text \<open>\<open>send\<close>: the write, with a write error logged and thrown again.\<close>

definition send ::
  "transport \<Rightarrow> jsstring \<Rightarrow> Section \<Rightarrow> sendObj \<Rightarrow> writer \<Rightarrow> thrown option \<times> writer" where
  "send tr prId section obj w = writer_write tr (frameOf prId section obj) w"

text \<open>
  What the generation capability answers to one request: the request throws, or it gives
  a stream of chunks, each with its \<open>choices[0]?.delta?.content\<close> (\<open>None\<close> when absent),
  whose iteration ends normally or throws after the chunks.
\<close>

record completionStream =
  chunks :: "jsstring option list"
  failure :: "thrown option"

record generation =
  devStream :: "thrown + completionStream"
  marketingStream :: "thrown + completionStream"

text \<open>\<open>for await (const chunk of stream) { if (content) await send(section, { content }) }\<close>\<close>

fun forAwait ::
  "transport \<Rightarrow> jsstring \<Rightarrow> Section \<Rightarrow> jsstring option list \<Rightarrow> writer \<Rightarrow> thrown option \<times> writer" where
  "forAwait tr prId section [] w = (None, w)"
| "forAwait tr prId section (c # cs) w =
     (case c of
        None \<Rightarrow> forAwait tr prId section cs w
      | Some content \<Rightarrow>
          if content = [] then forAwait tr prId section cs w
          else andThen (send tr prId section (ContentObj content) w) (forAwait tr prId section cs))"

text \<open>The opening frame with empty content, the fragments, the completion frame.\<close>

definition streamSection ::
  "transport \<Rightarrow> jsstring \<Rightarrow> Section \<Rightarrow> completionStream \<Rightarrow> writer \<Rightarrow> thrown option \<times> writer" where
  "streamSection tr prId section stream w =
     andThen (send tr prId section (ContentObj []) w) (\<lambda>w1.
     andThen (forAwait tr prId section (chunks stream) w1) (\<lambda>w2.
       case failure stream of
         Some e \<Rightarrow> (Some e, w2)
       | None \<Rightarrow> send tr prId section DoneObj w2))"

text \<open>The body of the inner \<open>try\<close>: the developer section, the marketing request, the marketing section.\<close>

definition tryBlock ::
  "transport \<Rightarrow> DiffItem \<Rightarrow> generation \<Rightarrow> completionStream \<Rightarrow> writer \<Rightarrow> thrown option \<times> writer" where
  "tryBlock tr pr gen dev w =
     andThen (streamSection tr (item_id pr) Developer dev w) (\<lambda>w1.
       case marketingStream gen of
         Inl e \<Rightarrow> (Some e, w1)
       | Inr mkt \<Rightarrow> streamSection tr (item_id pr) Marketing mkt w1)"

definition errorMessage :: "DiffItem \<Rightarrow> thrown \<Rightarrow> jsstring" where
  "errorMessage pr prError =
     ascii ''Error processing PR '' @ item_id pr @ ascii '': '' @
     (case prError of ErrorObject m \<Rightarrow> m | OtherValue \<Rightarrow> ascii ''Unknown error'')"

definition genericMessage :: jsstring where
  "genericMessage = ascii ''Internal error while generating notes. Please retry.''"

text \<open>
  One turn of the loop over the relevant items: the developer request (outside the inner
  \<open>try\<close>), the inner \<open>try\<close>, and its \<open>catch\<close>, which sends the item's error and throws
  the caught value again (or throws what \<open>sendError\<close> threw).
\<close>

definition processItem ::
  "transport \<Rightarrow> DiffItem \<times> generation \<Rightarrow> writer \<Rightarrow> thrown option \<times> writer" where
  "processItem tr job w =
     (case devStream (snd job) of
        Inl e \<Rightarrow> (Some e, w)
      | Inr dev \<Rightarrow>
          (case tryBlock tr (fst job) (snd job) dev w of
             (None, w1) \<Rightarrow> (None, w1)
           | (Some prError, w1) \<Rightarrow>
               andThen (sendError tr (errorMessage (fst job) prError) w1)
                 (\<lambda>w2. (Some prError, w2))))"

fun forLoop ::
  "transport \<Rightarrow> (DiffItem \<times> generation) list \<Rightarrow> writer \<Rightarrow> thrown option \<times> writer" where
  "forLoop tr [] w = (None, w)"
| "forLoop tr (job # jobs) w = andThen (processItem tr job w) (forLoop tr jobs)"

text \<open>
  The outer \<open>try\<close> of the streaming task with its \<open>catch\<close>: the loop, and the generic
  error message when the loop throws. What \<open>sendError\<close> throws there leaves the \<open>catch\<close>.
\<close>

definition outerTry ::
  "transport \<Rightarrow> (DiffItem \<times> generation) list \<Rightarrow> thrown option \<times> writer" where
  "outerTry tr jobs =
     (case forLoop tr jobs newWriter of
        (None, w) \<Rightarrow> (None, w)
      | (Some err, w) \<Rightarrow> sendError tr genericMessage w)"

text \<open>
  How the streaming task ends: it completes, it throws what left the outer \<open>catch\<close>, or
  it throws what \<open>close()\<close> in \<open>finally\<close> threw, which replaces anything thrown before.
\<close>

datatype taskOutcome = Fulfilled | Rejected thrown | CloseRejected

text \<open>The streaming task of \<open>POST\<close>: the outer \<open>try\<close> and \<open>finally { await writer.close() }\<close>.\<close>

definition streamNotes ::
  "transport \<Rightarrow> (DiffItem \<times> generation) list \<Rightarrow> taskOutcome \<times> writer" where
  "streamNotes tr jobs =
     (case outerTry tr jobs of
        (r, w1) \<Rightarrow>
          (case writer_close w1 of
             (True, w2) \<Rightarrow> ((case r of None \<Rightarrow> Fulfilled | Some e \<Rightarrow> Rejected e), w2)
           | (False, w2) \<Rightarrow> (CloseRejected, w2)))"

text \<open>
  The frames of one item when nothing fails: the developer section opened, its non-empty
  fragments, its completion, then the same for the marketing section.
\<close>

definition nonEmptyFragments :: "jsstring option list \<Rightarrow> jsstring list" where
  "nonEmptyFragments cs =
     concat (map (\<lambda>c. case c of None \<Rightarrow> [] | Some t \<Rightarrow> if t = [] then [] else [t]) cs)"

definition fragmentsOf :: "thrown + completionStream \<Rightarrow> jsstring list" where
  "fragmentsOf g = (case g of Inl _ \<Rightarrow> [] | Inr s \<Rightarrow> nonEmptyFragments (chunks s))"

definition sectionFrames :: "jsstring \<Rightarrow> Section \<Rightarrow> jsstring list \<Rightarrow> frame list" where
  "sectionFrames prId section fragments =
     ContentFrame prId section [] # map (ContentFrame prId section) fragments
       @ [DoneFrame prId section]"

definition itemFrames :: "DiffItem \<times> generation \<Rightarrow> frame list" where
  "itemFrames job =
     sectionFrames (item_id (fst job)) Developer (fragmentsOf (devStream (snd job))) @
     sectionFrames (item_id (fst job)) Marketing (fragmentsOf (marketingStream (snd job)))"





text \<open>The section and the item a frame belongs to.\<close>

definition frameSection :: "frame \<Rightarrow> Section option" where
  "frameSection f =
     (case f of ContentFrame _ s _ \<Rightarrow> Some s | DoneFrame _ s \<Rightarrow> Some s | ErrorFrame _ \<Rightarrow> None)"

definition framePrId :: "frame \<Rightarrow> jsstring option" where
  "framePrId f =
     (case f of ContentFrame i _ _ \<Rightarrow> Some i | DoneFrame i _ \<Rightarrow> Some i | ErrorFrame _ \<Rightarrow> None)"

text \<open>
  A step started on writer \<open>w\<close> emits towards \<open>full\<close>: it appends a prefix of \<open>full\<close> to
  what was written, and all of \<open>full\<close> when it does not throw.
\<close>

definition emits :: "writer \<Rightarrow> thrown option \<times> writer \<Rightarrow> frame list \<Rightarrow> bool" where
  "emits w res full \<longleftrightarrow>
     (\<exists>p. written (snd res) = written w @ p \<and> prefix p full \<and> (fst res = None \<longrightarrow> p = full))"

text \<open>
  The same with error frames after the prefix: at most \<open>n\<close> of them, and none when the
  step does not throw.
\<close>

definition emitsWithErrors ::
  "writer \<Rightarrow> thrown option \<times> writer \<Rightarrow> frame list \<Rightarrow> nat \<Rightarrow> bool" where
  "emitsWithErrors w res full n \<longleftrightarrow>
     (\<exists>p errs. written (snd res) = written w @ p @ errs \<and> prefix p full \<and>
        list_all isErrorFrame errs \<and> length errs \<le> n \<and>
        (fst res = None \<longrightarrow> p = full \<and> errs = []))"


text \<open>Example inputs: generations that succeed, fail and cannot start, for the items above.\<close>

definition genOk :: generation where
  "genOk = \<lparr> devStream = Inr \<lparr> chunks = [Some (ascii ''hi''), None, Some []], failure = None \<rparr>,
             marketingStream = Inr \<lparr> chunks = [Some (ascii ''yo'')], failure = None \<rparr> \<rparr>"



definition alwaysAccepts :: transport where
  "alwaysAccepts = (\<lambda>n. None)"


section \<open>The client page: parsed records\<close>

record contributor =
  name :: jsstring
  avatar :: jsstring
  contributions :: int

record PRTools =
  relatedIssues :: "jsstring list"
  contributors :: "contributor list"

text \<open>
  What the page reads of a parsed record: the properties \<open>prId\<close>, \<open>section\<close>,
  \<open>content\<close>, \<open>done\<close>, \<open>type\<close> and \<open>tools\<close>, each absent or present; \<open>message\<close> is the
  property of an error record, which the page never reads.
\<close>

record payload =
  pPrId :: "jsstring option"
  pSection :: "jsstring option"
  pContent :: "jsstring option"
  pDone :: "bool option"
  pType :: "jsstring option"
  pTools :: "PRTools option"
  pMessage :: "jsstring option"

text \<open>
  The two functions the loop body hands to \<open>setNotesByPR\<close>, with the values they close
  over: the item and the tools, or the item, the section and the content (\<open>""\<close> when the
  record has none). The item is \<open>None\<close> when the record has no \<open>prId\<close>.
\<close>

datatype updater =
  ToolsUpdater "jsstring option" PRTools
| SectionUpdater "jsstring option" jsstring jsstring

text \<open>
  What the loop body does with a parsed payload: nothing for a completion marker, the
  \<open>tools\<close> update, nothing without a section, and else the section update. The notes are
  an object of the page, with property lookup as objects have it; they are not modelled:
  \<open>'n\<close> is any type of notes and \<open>run\<close> gives the notes an updater returns for the
  previous notes.
\<close>

definition applyPayload :: "(updater \<Rightarrow> 'n \<Rightarrow> 'n) \<Rightarrow> 'n \<Rightarrow> payload \<Rightarrow> 'n" where
  "applyPayload run prev p =
     (if pDone p = Some True then prev
      else
        (case (if pType p = Some (ascii ''tools'') then pTools p else None) of
           Some t \<Rightarrow> run (ToolsUpdater (pPrId p) t) prev
         | None \<Rightarrow>
             (case pSection p of
                None \<Rightarrow> prev
              | Some sec \<Rightarrow>
                  if sec = [] then prev
                  else run (SectionUpdater (pPrId p) sec
                              (case pContent p of None \<Rightarrow> [] | Some c \<Rightarrow> c)) prev)))"

section \<open>The client page: decoding the stream\<close>

text \<open>
  The state of the read loop: the text buffer and the notes. \<open>decoded\<close> is not a variable
  of the source: it records, in order, the payloads \<open>JSON.parse\<close> returned, so that the
  decoded sequence can be spoken of.
\<close>

record 'n clientState =
  buffer :: jsstring
  notesByPR :: 'n
  decoded :: "payload list"

text \<open>
  The body of the inner loop for one record. \<open>JSON.parse\<close> is the parameter \<open>parse\<close>,
  with \<open>None\<close> when it throws.
\<close>

definition processRecord ::
  "(jsstring \<Rightarrow> payload option) \<Rightarrow> (updater \<Rightarrow> 'n \<Rightarrow> 'n) \<Rightarrow> jsstring \<Rightarrow>
     'n clientState \<Rightarrow> 'n clientState" where
  "processRecord parse run rawRecord st =
     (let rawEvent = js_trim rawRecord in
      if \<not> startsWith rawEvent (ascii ''data:'') then st
      else
        (let json = js_trim (js_slice_from rawEvent 5) in
         if json = [] then st
         else
           (case parse json of
              None \<Rightarrow> st
            | Some p \<Rightarrow> st\<lparr>notesByPR := applyPayload run (notesByPR st) p,
                            decoded := decoded st @ [p]\<rparr>)))"

definition dblNewline :: jsstring where
  "dblNewline = [0x0A, 0x0A]"

lemma js_indexOf_bound: "js_indexOf s pat = Some i \<Longrightarrow> i + length pat \<le> length s"
proof (induction s arbitrary: i)
  case Nil
  then show ?case by (simp split: if_splits)
next
  case (Cons c cs)
  show ?case
  proof (cases "prefix pat (c # cs)")
    case True
    with Cons.prems have "i = 0" by simp
    with prefix_length_le [OF True] show ?thesis by simp
  next
    case False
    with Cons.prems obtain j where "js_indexOf cs pat = Some j" "i = Suc j" by auto
    with Cons.IH show ?thesis by simp
  qed
qed

lemma processRecord_buffer: "buffer (processRecord parse run r st) = buffer st"
  by (simp add: processRecord_def Let_def split: option.splits)

text \<open>
  \<open>while ((dblNewline = buffer.indexOf("\n\n")) !== -1)\<close>: the record before the blank
  line is processed and the buffer continues after it.
\<close>

function drainBuffer ::
  "(jsstring \<Rightarrow> payload option) \<Rightarrow> (updater \<Rightarrow> 'n \<Rightarrow> 'n) \<Rightarrow> 'n clientState \<Rightarrow> 'n clientState" where
  "drainBuffer parse run st =
     (case js_indexOf (buffer st) dblNewline of
        None \<Rightarrow> st
      | Some i \<Rightarrow>
          drainBuffer parse run
            (processRecord parse run (js_slice (buffer st) 0 (int i))
               (st\<lparr>buffer := js_slice_from (buffer st) (int i + 2)\<rparr>)))"
  by pat_completeness auto
termination
proof (relation "measure (\<lambda>(parse, run, st). length (buffer st))")
  show "wf (measure (\<lambda>(parse, run, st). length (buffer st)))" by simp
next
  fix parse :: "jsstring \<Rightarrow> payload option" and run :: "updater \<Rightarrow> 'n \<Rightarrow> 'n"
    and st :: "'n clientState" and i
  assume "js_indexOf (buffer st) dblNewline = Some i"
  from js_indexOf_bound [OF this] have "i + 2 \<le> length (buffer st)"
    by (simp add: dblNewline_def)
  moreover have "js_slice_from (buffer st) (int i + 2) = drop (i + 2) (buffer st)"
    by (simp add: js_slice_from_def js_slice_def Let_def min_def nat_add_distrib)
  ultimately show "((parse, run, processRecord parse run (js_slice (buffer st) 0 (int i))
                       (st\<lparr>buffer := js_slice_from (buffer st) (int i + 2)\<rparr>)),
                    (parse, run, st)) \<in> measure (\<lambda>(parse, run, st). length (buffer st))"
    by (simp add: processRecord_buffer)
qed

declare drainBuffer.simps [simp del]

text \<open>
  \<open>while (true) { read; if (done) break; buffer += decoder.decode(value, { stream: true }); ... }\<close>.
  The elements of the list are the pieces of text the streaming decoder returns for the
  chunks read: it carries an incomplete character over to the next chunk, so the pieces
  concatenate to the text that was sent, cut at any place.
\<close>

fun readLoop ::
  "(jsstring \<Rightarrow> payload option) \<Rightarrow> (updater \<Rightarrow> 'n \<Rightarrow> 'n) \<Rightarrow> 'n clientState \<Rightarrow>
     jsstring list \<Rightarrow> 'n clientState" where
  "readLoop parse run st [] = st"
| "readLoop parse run st (piece # rest) =
     readLoop parse run (drainBuffer parse run (st\<lparr>buffer := buffer st @ piece\<rparr>)) rest"

text \<open>
  The streaming part of \<open>generateNotes\<close>: \<open>setError(null)\<close>, the read loop, and the
  \<open>catch\<close> that shows the message of what a read threw.
\<close>

record 'n pageState =
  notesShown :: 'n
  errorShown :: "jsstring option"

definition generateNotes ::
  "(jsstring \<Rightarrow> payload option) \<Rightarrow> (updater \<Rightarrow> 'n \<Rightarrow> 'n) \<Rightarrow> 'n \<Rightarrow> jsstring list \<Rightarrow>
     thrown option \<Rightarrow> 'n pageState" where
  "generateNotes parse run notes0 pieces readFailure =
     \<lparr> notesShown =
         notesByPR (readLoop parse run \<lparr>buffer = [], notesByPR = notes0, decoded = []\<rparr> pieces),
       errorShown =
         (case readFailure of
            None \<Rightarrow> None
          | Some (ErrorObject m) \<Rightarrow> Some m
          | Some OtherValue \<Rightarrow> Some (ascii ''Unknown error'')) \<rparr>"

text \<open>The object \<open>JSON.parse\<close> returns for the JSON text of a frame.\<close>

definition payloadOf :: "frame \<Rightarrow> payload" where
  "payloadOf f =
     (case f of
        ContentFrame prId section c \<Rightarrow>
          \<lparr>pPrId = Some prId, pSection = Some (sectionName section), pContent = Some c,
           pDone = None, pType = None, pTools = None, pMessage = None\<rparr>
      | DoneFrame prId section \<Rightarrow>
          \<lparr>pPrId = Some prId, pSection = Some (sectionName section), pContent = None,
           pDone = Some True, pType = None, pTools = None, pMessage = None\<rparr>
      | ErrorFrame message \<Rightarrow>
          \<lparr>pPrId = None, pSection = None, pContent = None,
           pDone = None, pType = None, pTools = None, pMessage = Some message\<rparr>)"

section \<open>Facts about slices\<close>

lemma js_slice_prefix: "js_slice s 0 (int k) = take k s"
  by (simp add: js_slice_def Let_def min_def)

lemma js_slice_from_nonneg: "js_slice_from s (int k) = drop k s"
  by (simp add: js_slice_from_def js_slice_def Let_def min_def)

lemma js_slice_from_neg: "0 < k \<Longrightarrow> js_slice_from s (- int k) = drop (length s - k) s"
  by (auto simp add: js_slice_from_def js_slice_def Let_def max_def nat_diff_distrib')

section \<open>The overlap found by the merge loop\<close>

lemma overlapLoop_found: "overlapLoop p f n = p @ drop (overlapFound p f n) f"
  by (induction n) (simp_all add: js_slice_from_nonneg del: of_nat_Suc)

lemma overlapFound_hit:
  "n \<le> min (length p) (length f) \<Longrightarrow> spec_overlap p f (overlapFound p f n)"
proof (induction n)
  case 0
  then show ?case by (simp add: spec_overlap_def)
next
  case (Suc n)
  then show ?case
    by (simp add: spec_overlap_def js_slice_from_neg js_slice_prefix del: of_nat_Suc)
qed

lemma overlapFound_max:
  "spec_overlap p f j \<Longrightarrow> j \<le> n \<Longrightarrow> j \<le> overlapFound p f n"
proof (induction n)
  case 0
  then show ?case by simp
next
  case (Suc n)
  show ?case
  proof (cases "js_slice_from p (- int (Suc n)) = js_slice f 0 (int (Suc n))")
    case True
    with Suc.prems show ?thesis by simp
  next
    case False
    have "j \<noteq> Suc n"
    proof
      assume "j = Suc n"
      with Suc.prems(1) have "drop (length p - Suc n) p = take (Suc n) f"
        by (simp add: spec_overlap_def)
      with False show False
        by (simp add: js_slice_from_neg js_slice_prefix del: of_nat_Suc)
    qed
    with Suc.prems have "j \<le> n" by simp
    with Suc.IH Suc.prems(1) have "j \<le> overlapFound p f n" by simp
    with False show ?thesis by simp
  qed
qed

lemma merge_overlapLen: "mergeWithOverlap p f = p @ drop (overlapLen p f) f"
  by (auto simp add: mergeWithOverlap_def overlapLen_def overlapLoop_found)

lemma merge_unguarded_eq: "mergeWithOverlap_unguarded p f = mergeWithOverlap p f"
  by (auto simp add: mergeWithOverlap_def mergeWithOverlap_unguarded_def)

lemma overlapLen_spec: "spec_overlap p f (overlapLen p f)"
  unfolding overlapLen_def by (rule overlapFound_hit) simp

lemma overlapLen_greatest: "spec_overlap p f j \<Longrightarrow> j \<le> overlapLen p f"
  unfolding overlapLen_def by (rule overlapFound_max) (simp_all add: spec_overlap_def)

text \<open>
  C1. For all strings \<open>prev\<close> and \<open>fragment\<close>, \<open>mergeWithOverlap\<close> returns the other
  string when either is empty, and in every case \<open>prev\<close> followed by \<open>fragment\<close> without
  its first \<open>k\<close> code units, where \<open>k\<close> is the largest number bounded by both lengths
  such that the last \<open>k\<close> code units of \<open>prev\<close> are the first \<open>k\<close> of \<open>fragment\<close>
  (\<open>k = 0\<close> is plain concatenation). The unguarded copy of the function computes the
  same result. The five examples of the specification hold.
\<close>

theorem mergeWithOverlap_spec:
  "(prev = [] \<longrightarrow> mergeWithOverlap prev fragment = fragment) \<and>
   (fragment = [] \<longrightarrow> mergeWithOverlap prev fragment = prev) \<and>
   (\<exists>k. spec_overlap prev fragment k \<and>
        (\<forall>j. spec_overlap prev fragment j \<longrightarrow> j \<le> k) \<and>
        mergeWithOverlap prev fragment = prev @ drop k fragment) \<and>
   mergeWithOverlap_unguarded prev fragment = mergeWithOverlap prev fragment \<and>
   mergeWithOverlap (ascii ''ab'') (ascii ''bc'') = ascii ''abc'' \<and>
   mergeWithOverlap (ascii []) (ascii ''x'') = ascii ''x'' \<and>
   mergeWithOverlap (ascii ''x'') (ascii []) = ascii ''x'' \<and>
   mergeWithOverlap (ascii ''abc'') (ascii ''xyz'') = ascii ''abcxyz'' \<and>
   mergeWithOverlap (ascii ''hello wor'') (ascii ''world!'') = ascii ''hello world!''"
proof (intro conjI)
  show "prev = [] \<longrightarrow> mergeWithOverlap prev fragment = fragment"
    by (simp add: mergeWithOverlap_def)
  show "fragment = [] \<longrightarrow> mergeWithOverlap prev fragment = prev"
    by (simp add: mergeWithOverlap_def)
  show "\<exists>k. spec_overlap prev fragment k \<and>
        (\<forall>j. spec_overlap prev fragment j \<longrightarrow> j \<le> k) \<and>
        mergeWithOverlap prev fragment = prev @ drop k fragment"
    using overlapLen_spec overlapLen_greatest merge_overlapLen by blast
  show "mergeWithOverlap_unguarded prev fragment = mergeWithOverlap prev fragment"
    by (rule merge_unguarded_eq)
qed (simp_all add: mergeWithOverlap_def ascii_def js_slice_from_def js_slice_def)

theorem mergeWithOverlap_spec_witness:
  "spec_overlap (ascii ''ab'') (ascii ''bc'') 1 \<and>
   \<not> spec_overlap (ascii ''ab'') (ascii ''bc'') 2 \<and>
   mergeWithOverlap (ascii ''ab'') (ascii ''bc'') = ascii ''ab'' @ drop 1 (ascii ''bc'')"
proof -
  from mergeWithOverlap_spec [of "ascii ''ab''" "ascii ''bc''"]
  obtain k where k: "spec_overlap (ascii ''ab'') (ascii ''bc'') k"
    and mx: "\<forall>j. spec_overlap (ascii ''ab'') (ascii ''bc'') j \<longrightarrow> j \<le> k"
    and mg: "mergeWithOverlap (ascii ''ab'') (ascii ''bc'') = ascii ''ab'' @ drop k (ascii ''bc'')"
    by blast
  have one: "spec_overlap (ascii ''ab'') (ascii ''bc'') 1"
    by (simp add: spec_overlap_def ascii_def)
  have "k \<le> 2" using k by (simp add: spec_overlap_def ascii_def)
  moreover have two: "\<not> spec_overlap (ascii ''ab'') (ascii ''bc'') 2"
    by (simp add: spec_overlap_def ascii_def)
  moreover have "1 \<le> k" using mx one by blast
  ultimately have "k = 1" using k by (cases "k = 2") auto
  with k two mg show ?thesis by simp
qed

section \<open>Re-delivery of a fragment\<close>

lemma merge_suffix_aux: "suffix f p \<Longrightarrow> overlapLen p f = length f"
proof -
  assume sf: "suffix f p"
  then obtain q where p: "p = q @ f" by (auto simp add: suffix_def)
  have "spec_overlap p f (length f)"
    by (simp add: spec_overlap_def p)
  then have "length f \<le> overlapLen p f" by (rule overlapLen_greatest)
  moreover have "overlapLen p f \<le> length f"
    using overlapLen_spec [of p f] by (simp add: spec_overlap_def)
  ultimately show ?thesis by simp
qed

text \<open>
  C9. \<open>mergeWithOverlap a a = a\<close> for every string, and whenever \<open>fragment\<close> is a suffix of
  \<open>prev\<close> the merge returns \<open>prev\<close>: a fragment delivered again after it was appended in
  full leaves the accumulated text as it is.
\<close>

theorem mergeWithOverlap_redelivery:
  "mergeWithOverlap a a = a \<and>
   (suffix fragment prev \<longrightarrow> mergeWithOverlap prev fragment = prev)"
  by (simp add: merge_overlapLen merge_suffix_aux)

theorem mergeWithOverlap_redelivery_witness:
  "suffix (ascii ''lo'') (ascii ''hello'') \<and>
   mergeWithOverlap (ascii ''hello'') (ascii ''lo'') = ascii ''hello''"
proof -
  have s: "suffix (ascii ''lo'') (ascii ''hello'')"
    by (simp add: ascii_def suffix_def)
  with mergeWithOverlap_redelivery [of "ascii ''hello''" "ascii ''lo''" "ascii ''hello''"]
  show ?thesis by simp
qed

section \<open>Two fragments against one merged fragment\<close>

lemma merge_ends_with_fragment: "suffix f (mergeWithOverlap p f)"
proof -
  let ?i = "overlapLen p f"
  have ov: "drop (length p - ?i) p = take ?i f"
    using overlapLen_spec [of p f] by (simp add: spec_overlap_def)
  have "p @ drop ?i f = take (length p - ?i) p @ drop (length p - ?i) p @ drop ?i f"
    by simp
  also have "\<dots> = take (length p - ?i) p @ f"
    by (simp only: ov append_take_drop_id)
  finally show ?thesis by (simp add: merge_overlapLen suffix_def)
qed

lemma spec_overlap_suffix_left:
  assumes "k \<le> length a"
  shows "spec_overlap (q @ a) b k \<longleftrightarrow> spec_overlap a b k"
  using assms by (auto simp add: spec_overlap_def)

lemma spec_overlap_prefix_right:
  assumes "k \<le> length a"
  shows "spec_overlap s (a @ r) k \<longleftrightarrow> spec_overlap s a k"
  using assms by (auto simp add: spec_overlap_def)

lemma overlapLen_left_within:
  assumes "overlapLen (q @ a) b \<le> length a"
  shows "overlapLen (q @ a) b = overlapLen a b"
proof -
  have 1: "spec_overlap a b (overlapLen (q @ a) b)"
    using overlapLen_spec [of "q @ a" b] assms spec_overlap_suffix_left by blast
  have le: "overlapLen a b \<le> length a"
    using overlapLen_spec [of a b] by (simp add: spec_overlap_def)
  then have 2: "spec_overlap (q @ a) b (overlapLen a b)"
    using overlapLen_spec [of a b] spec_overlap_suffix_left by blast
  from 1 have "overlapLen (q @ a) b \<le> overlapLen a b" by (rule overlapLen_greatest)
  moreover from 2 have "overlapLen a b \<le> overlapLen (q @ a) b" by (rule overlapLen_greatest)
  ultimately show ?thesis by simp
qed

lemma overlapLen_right_within:
  assumes "overlapLen s (a @ r) \<le> length a"
  shows "overlapLen s (a @ r) = overlapLen s a"
proof -
  have 1: "spec_overlap s a (overlapLen s (a @ r))"
    using overlapLen_spec [of s "a @ r"] assms spec_overlap_prefix_right by blast
  have le: "overlapLen s a \<le> length a"
    using overlapLen_spec [of s a] by (simp add: spec_overlap_def)
  then have 2: "spec_overlap s (a @ r) (overlapLen s a)"
    using overlapLen_spec [of s a] spec_overlap_prefix_right by blast
  from 1 have "overlapLen s (a @ r) \<le> overlapLen s a" by (rule overlapLen_greatest)
  moreover from 2 have "overlapLen s a \<le> overlapLen s (a @ r)" by (rule overlapLen_greatest)
  ultimately show ?thesis by simp
qed

text \<open>
  C3, as stated: merging \<open>a\<close> and then \<open>b\<close> into the channel text \<open>s\<close> gives the same
  text as merging \<open>mergeWithOverlap a b\<close> into \<open>s\<close>, for all strings. This fails: with
  \<open>s = xab\<close>, \<open>a = b\<close>, \<open>b = abc\<close> the two frames give \<open>xabc\<close> (the fragment
  \<open>a\<close> is absorbed by \<open>s\<close>, and \<open>b\<close> then overlaps \<open>s\<close> by two code units), the single
  frame gives \<open>xababc\<close>.
\<close>

theorem merge_two_fragments_counterexample:
  "mergeWithOverlap (mergeWithOverlap (ascii ''xab'') (ascii ''b'')) (ascii ''abc'') = ascii ''xabc'' \<and>
   mergeWithOverlap (ascii ''xab'') (mergeWithOverlap (ascii ''b'') (ascii ''abc'')) = ascii ''xababc'' \<and>
   mergeWithOverlap (mergeWithOverlap (ascii ''xab'') (ascii ''b'')) (ascii ''abc'')
     \<noteq> mergeWithOverlap (ascii ''xab'') (mergeWithOverlap (ascii ''b'') (ascii ''abc''))"
  by (simp add: mergeWithOverlap_def ascii_def js_slice_from_def js_slice_def)

text \<open>
  C3, amended: the two ways of merging agree whenever neither overlap reaches beyond the
  middle fragment \<open>a\<close>, that is, when the overlap of \<open>mergeWithOverlap s a\<close> with \<open>b\<close> and
  the overlap of \<open>s\<close> with \<open>mergeWithOverlap a b\<close> are both at most the length of \<open>a\<close>.
\<close>

theorem merge_two_fragments:
  assumes l: "overlapLen (mergeWithOverlap s a) b \<le> length a"
    and r: "overlapLen s (mergeWithOverlap a b) \<le> length a"
  shows "mergeWithOverlap (mergeWithOverlap s a) b = mergeWithOverlap s (mergeWithOverlap a b)"
proof -
  obtain q where q: "mergeWithOverlap s a = q @ a"
    using merge_ends_with_fragment [of a s] by (auto simp add: suffix_def)
  have j: "overlapLen (mergeWithOverlap s a) b = overlapLen a b"
    using l overlapLen_left_within [of q a b] by (simp add: q)
  have n: "mergeWithOverlap a b = a @ drop (overlapLen a b) b"
    by (rule merge_overlapLen)
  have i: "overlapLen s (mergeWithOverlap a b) = overlapLen s a"
    using r overlapLen_right_within [of s a "drop (overlapLen a b) b"] by (simp add: n)
  have ia: "overlapLen s a \<le> length a"
    using overlapLen_spec [of s a] by (simp add: spec_overlap_def)
  have "mergeWithOverlap (mergeWithOverlap s a) b
      = (s @ drop (overlapLen s a) a) @ drop (overlapLen a b) b"
    using j merge_overlapLen [of "mergeWithOverlap s a" b] by (simp add: merge_overlapLen [of s a])
  moreover have "mergeWithOverlap s (mergeWithOverlap a b)
      = s @ drop (overlapLen s a) (a @ drop (overlapLen a b) b)"
    using i merge_overlapLen [of s "mergeWithOverlap a b"] by (simp add: n)
  ultimately show ?thesis using ia by simp
qed

theorem merge_two_fragments_witness:
  "overlapLen (mergeWithOverlap (ascii ''ab'') (ascii ''bc'')) (ascii ''cd'') \<le> length (ascii ''bc'') \<and>
   overlapLen (ascii ''ab'') (mergeWithOverlap (ascii ''bc'') (ascii ''cd'')) \<le> length (ascii ''bc'') \<and>
   mergeWithOverlap (mergeWithOverlap (ascii ''ab'') (ascii ''bc'')) (ascii ''cd'')
     = mergeWithOverlap (ascii ''ab'') (mergeWithOverlap (ascii ''bc'') (ascii ''cd''))"
proof -
  have l: "overlapLen (mergeWithOverlap (ascii ''ab'') (ascii ''bc'')) (ascii ''cd'') \<le> length (ascii ''bc'')"
    by (simp add: overlapLen_def mergeWithOverlap_def ascii_def js_slice_from_def js_slice_def)
  have r: "overlapLen (ascii ''ab'') (mergeWithOverlap (ascii ''bc'') (ascii ''cd'')) \<le> length (ascii ''bc'')"
    by (simp add: overlapLen_def mergeWithOverlap_def ascii_def js_slice_from_def js_slice_def)
  from l r merge_two_fragments [OF l r] show ?thesis by simp
qed

section \<open>Lines of a diff\<close>

lemma splitFrom_append:
  "splitFrom cur (a @ 0x0A # b) = splitFrom cur a @ splitFrom [] b"
  by (induction a arbitrary: cur) simp_all

lemma splitFrom_single: "0x0A \<notin> set h \<Longrightarrow> splitFrom cur h = [cur @ h]"
  by (induction h arbitrary: cur) auto

lemma split_lines_append: "split_lines (a @ 0x0A # b) = split_lines a @ split_lines b"
  by (simp add: split_lines_def splitFrom_append)

lemma split_lines_single: "0x0A \<notin> set h \<Longrightarrow> split_lines h = [h]"
  by (simp add: split_lines_def splitFrom_single)

lemma count_append:
  "countMeaningfulChanges (a @ 0x0A # b) = countMeaningfulChanges a + countMeaningfulChanges b"
  by (simp add: countMeaningfulChanges_def split_lines_append)

lemma count_strict_append:
  "countMeaningfulChanges_strict (a @ 0x0A # b)
     = countMeaningfulChanges_strict a + countMeaningfulChanges_strict b"
  by (simp add: countMeaningfulChanges_strict_def split_lines_append)

section \<open>What the tests of the counter see on a changed line\<close>

lemma marker_not_space: "\<not> isWhiteSpace 0x2B" "\<not> isWhiteSpace 0x2D"
  by (simp_all add: isWhiteSpace_def)

lemma changeLine_cases:
  "isChangeLine line \<longleftrightarrow> (\<exists>r. line = 0x2B # r) \<or> (\<exists>r. line = 0x2D # r)"
  by (auto simp add: isChangeLine_def startsWith_def ascii_def prefix_def)

lemma trim_keeps_marker:
  assumes "\<not> isWhiteSpace c"
  shows "js_trim (c # r) = c # rev (dropWhile isWhiteSpace (rev r))"
  using assms by (simp add: js_trim_def dropWhile_append)

lemma comment_test_never_fires:
  assumes "isChangeLine line"
  shows "js_trim line \<noteq> [] \<and> \<not> startsWith (js_trim line) (ascii ''//'')
         \<and> \<not> startsWith (js_trim line) (ascii ''/*'')"
  using assms
  by (auto simp add: changeLine_cases trim_keeps_marker marker_not_space startsWith_def ascii_def)

lemma meaningful_on_changeLine:
  assumes "isChangeLine line"
  shows "isMeaningfulCodeChange line \<longleftrightarrow> \<not> whitespaceOnly line"
  using comment_test_never_fires [OF assms]
  by (simp add: isMeaningfulCodeChange_def whitespaceOnly_def)

lemma meaningful_strict_on_changeLine:
  assumes "isChangeLine line"
  shows "isMeaningfulCodeChange_strict line
           \<longleftrightarrow> \<not> whitespaceOnly line \<and> \<not> versionOrDependency line"
  using comment_test_never_fires [OF assms]
  by (simp add: isMeaningfulCodeChange_strict_def whitespaceOnly_def versionOrDependency_def)

lemma filter_filter_conj:
  "filter P (filter Q xs) = filter (\<lambda>x. Q x \<and> P x) xs"
  by (induction xs) auto

lemma count_as_lines:
  "countMeaningfulChanges d
     = length (filter (\<lambda>l. isChangeLine l \<and> \<not> whitespaceOnly l) (split_lines d))"
proof -
  have "filter isMeaningfulCodeChange (filter isChangeLine (split_lines d))
        = filter (\<lambda>l. isChangeLine l \<and> \<not> whitespaceOnly l) (split_lines d)"
    unfolding filter_filter_conj
    by (rule filter_cong) (auto simp add: meaningful_on_changeLine)
  then show ?thesis
    by (simp add: countMeaningfulChanges_def isChangeLine_def [abs_def])
qed

lemma count_strict_as_lines:
  "countMeaningfulChanges_strict d
     = length (filter (\<lambda>l. isChangeLine l \<and> \<not> whitespaceOnly l \<and> \<not> versionOrDependency l)
                (split_lines d))"
proof -
  have "filter isMeaningfulCodeChange_strict (filter isChangeLine (split_lines d))
        = filter (\<lambda>l. isChangeLine l \<and> \<not> whitespaceOnly l \<and> \<not> versionOrDependency l)
            (split_lines d)"
    unfolding filter_filter_conj
    by (rule filter_cong) (auto simp add: meaningful_strict_on_changeLine)
  then show ?thesis
    by (simp add: countMeaningfulChanges_strict_def isChangeLine_def [abs_def])
qed

lemma header_is_counted:
  assumes "isFileHeader h"
  shows "isChangeLine h \<and> \<not> whitespaceOnly h"
proof -
  from assms obtain p where h: "h = ascii ''+++ '' @ p \<or> h = ascii ''--- '' @ p"
    by (auto simp add: isFileHeader_def startsWith_def prefix_def)
  then have "isChangeLine h"
    by (auto simp add: changeLine_cases ascii_def)
  moreover from h have "length (removeWhitespace h) \<ge> 3"
    by (auto simp add: removeWhitespace_def ascii_def isWhiteSpace_def)
  then have "\<not> whitespaceOnly h"
    by (auto simp add: whitespaceOnly_def ascii_def)
  ultimately show ?thesis by simp
qed

lemma header_count_one:
  assumes "isFileHeader h" and "0x0A \<notin> set h"
  shows "countMeaningfulChanges h = 1"
  using header_is_counted [OF assms(1)] assms(2)
  by (simp add: count_as_lines split_lines_single)

lemma header_count_strict_one:
  assumes "isFileHeader h" and "0x0A \<notin> set h" and "\<not> versionOrDependency h"
  shows "countMeaningfulChanges_strict h = 1"
  using header_is_counted [OF assms(1)] assms(2,3)
  by (simp add: count_strict_as_lines split_lines_single)

text \<open>
  C10. \<open>countMeaningfulChanges\<close> is the number of lines that begin with \<open>+\<close> or \<open>-\<close> and
  are not white space only apart from the marker (in the stricter copy: and match neither
  the version nor the dependency pattern); the tests for an empty line and for a comment
  never apply to such a line. A unified-diff file header (\<open>+++ b/path\<close>, \<open>--- a/path\<close>)
  is such a line: alone it counts 1, and as a line of a larger diff it adds 1 to the count
  of the lines before and after it (in the stricter copy when it matches neither pattern).
\<close>

theorem countMeaningfulChanges_headers:
  "countMeaningfulChanges d
     = length (filter (\<lambda>l. isChangeLine l \<and> \<not> whitespaceOnly l) (split_lines d)) \<and>
   countMeaningfulChanges_strict d
     = length (filter (\<lambda>l. isChangeLine l \<and> \<not> whitespaceOnly l \<and> \<not> versionOrDependency l)
                (split_lines d)) \<and>
   (isFileHeader h \<and> 0x0A \<notin> set h \<longrightarrow>
      countMeaningfulChanges h = 1 \<and>
      countMeaningfulChanges (before @ [0x0A] @ h @ [0x0A] @ after)
        = countMeaningfulChanges before + 1 + countMeaningfulChanges after \<and>
      (\<not> versionOrDependency h \<longrightarrow>
         countMeaningfulChanges_strict h = 1 \<and>
         countMeaningfulChanges_strict (before @ [0x0A] @ h @ [0x0A] @ after)
           = countMeaningfulChanges_strict before + 1 + countMeaningfulChanges_strict after))"
proof (intro conjI)
  show "countMeaningfulChanges d
     = length (filter (\<lambda>l. isChangeLine l \<and> \<not> whitespaceOnly l) (split_lines d))"
    by (rule count_as_lines)
  show "countMeaningfulChanges_strict d
     = length (filter (\<lambda>l. isChangeLine l \<and> \<not> whitespaceOnly l \<and> \<not> versionOrDependency l)
                (split_lines d))"
    by (rule count_strict_as_lines)
qed (simp add: count_append count_strict_append header_count_one header_count_strict_one)

theorem countMeaningfulChanges_headers_witness:
  "isFileHeader (ascii ''+++ b/path'') \<and> 0x0A \<notin> set (ascii ''+++ b/path'') \<and>
   \<not> versionOrDependency (ascii ''+++ b/path'') \<and>
   countMeaningfulChanges (ascii ''--- a/path'' @ [0x0A] @ ascii ''+++ b/path'' @ [0x0A] @ ascii ''+x'') = 3 \<and>
   countMeaningfulChanges_strict (ascii ''--- a/path'' @ [0x0A] @ ascii ''+++ b/path'' @ [0x0A] @ ascii ''+x'') = 3"
proof -
  have h: "isFileHeader (ascii ''+++ b/path'')" by code_simp
  have n: "0x0A \<notin> set (ascii ''+++ b/path'')" by (simp add: ascii_def)
  have v: "\<not> versionOrDependency (ascii ''+++ b/path'')" by code_simp
  have b: "countMeaningfulChanges (ascii ''--- a/path'') = 1"
    "countMeaningfulChanges_strict (ascii ''--- a/path'') = 1"
    "countMeaningfulChanges (ascii ''+x'') = 1"
    "countMeaningfulChanges_strict (ascii ''+x'') = 1"
    by code_simp+
  have "countMeaningfulChanges
          (ascii ''--- a/path'' @ [0x0A] @ ascii ''+++ b/path'' @ [0x0A] @ ascii ''+x'')
        = countMeaningfulChanges (ascii ''--- a/path'') + 1 + countMeaningfulChanges (ascii ''+x'')
      \<and> countMeaningfulChanges_strict
          (ascii ''--- a/path'' @ [0x0A] @ ascii ''+++ b/path'' @ [0x0A] @ ascii ''+x'')
        = countMeaningfulChanges_strict (ascii ''--- a/path'') + 1
          + countMeaningfulChanges_strict (ascii ''+x'')"
    using countMeaningfulChanges_headers
      [of "[]" "ascii ''+++ b/path''" "ascii ''--- a/path''" "ascii ''+x''"] h n v
    by blast
  with h n v b show ?thesis by simp
qed

text \<open>
  C4, evaluated on the code. The claim: a line beginning with \<open>+\<close> or \<open>-\<close> whose content
  starts with \<open>//\<close> or \<open>/*\<close> is excluded from the count. The source tests
  \<open>line.trim().startsWith('//')\<close> on the whole line, marker included, so on a changed
  line the test never succeeds (\<open>comment_test_never_fires\<close>) and an added or removed
  comment line is counted, in both copies of the counter.
\<close>

theorem comment_lines_are_counted:
  "countMeaningfulChanges (ascii ''+// comment'') = 1 \<and>
   countMeaningfulChanges_strict (ascii ''+// comment'') = 1 \<and>
   countMeaningfulChanges (ascii ''-/* comment */'') = 1 \<and>
   countMeaningfulChanges_strict (ascii ''-/* comment */'') = 1"
  by code_simp

section \<open>The relevance filter and its cap\<close>

lemma js_slice_take: "js_slice xs 0 (int k) = take k xs"
  by (simp add: js_slice_def Let_def min_def)

lemma tenLineDiff_counts:
  "length (split_lines tenLineDiff) = 10"
  "countMeaningfulChanges tenLineDiff = 10"
  "countMeaningfulChanges_strict tenLineDiff = 10"
  by code_simp+

lemma description_permissive:
  "\<not> list_ex (\<lambda>pattern. js_includes (asciiLower (ascii ''fix parser crash'')) (asciiLower pattern))
       (excludePatterns DEFAULT_FILTERS_permissive)"
  "\<not> list_ex (\<lambda>label. js_includes (asciiLower (ascii ''fix parser crash'')) (asciiLower label))
       (excludeLabels DEFAULT_FILTERS_permissive)"
  "list_ex (\<lambda>label. js_includes (asciiLower (ascii ''fix parser crash'')) (asciiLower label))
       (includeLabels DEFAULT_FILTERS_permissive)"
  by code_simp+

lemma description_default:
  "\<not> list_ex (\<lambda>pattern. js_includes (asciiLower (ascii ''fix parser crash'')) (asciiLower pattern))
       (excludePatterns DEFAULT_FILTERS)"
  "\<not> list_ex (\<lambda>label. js_includes (asciiLower (ascii ''fix parser crash'')) (asciiLower label))
       (excludeLabels DEFAULT_FILTERS)"
  "list_ex (\<lambda>label. js_includes (asciiLower (ascii ''fix parser crash'')) (asciiLower label))
       (includeLabels DEFAULT_FILTERS)"
  by code_simp+

lemma thresholds:
  "minDiffSize DEFAULT_FILTERS = 10" "minCodeChanges DEFAULT_FILTERS = 3"
  "minDiffSize DEFAULT_FILTERS_permissive = 4" "minCodeChanges DEFAULT_FILTERS_permissive = 2"
  by (simp_all add: DEFAULT_FILTERS_def DEFAULT_FILTERS_permissive_def)

lemma acceptedItem_relevant:
  "isRelevantPR asciiLower (acceptedItem i) DEFAULT_FILTERS_permissive"
  "isRelevantPR_permissive asciiLower (acceptedItem i) DEFAULT_FILTERS"
  by (simp_all add: isRelevantPR_def isRelevantPR_permissive_def isRelevantPR_with_def
      acceptedItem_def tenLineDiff_counts description_permissive description_default thresholds)

text \<open>
  C8, as stated: the result holds exactly the relevant items, and whether it is capped at
  five is determined by the policy (capped for the conservative one, uncapped for the
  permissive one). This fails: \<open>filterPRs\<close> of \<open>src/lib/pr-filters.ts\<close> called with the
  permissive preset returns five of six relevant items, and the second copy of
  \<open>filterPRs\<close> called with the conservative preset returns all six.
\<close>

theorem filterPRs_cap_counterexample:
  "list_all (\<lambda>pr. isRelevantPR asciiLower pr DEFAULT_FILTERS_permissive) sixItems \<and>
   length sixItems = 6 \<and>
   length (filterPRs asciiLower sixItems DEFAULT_FILTERS_permissive) = 5 \<and>
   filterPRs asciiLower sixItems DEFAULT_FILTERS_permissive
     \<noteq> filter (\<lambda>pr. isRelevantPR asciiLower pr DEFAULT_FILTERS_permissive) sixItems \<and>
   length (filterPRs_permissive asciiLower sixItems DEFAULT_FILTERS) = 6"
proof -
  have all: "filter (\<lambda>pr. isRelevantPR asciiLower pr DEFAULT_FILTERS_permissive) sixItems = sixItems"
    by (simp add: sixItems_def acceptedItem_relevant)
  have all': "filter (\<lambda>pr. isRelevantPR_permissive asciiLower pr DEFAULT_FILTERS) sixItems = sixItems"
    by (simp add: sixItems_def acceptedItem_relevant)
  have len: "length sixItems = 6" by (simp add: sixItems_def)
  have five: "length (filterPRs asciiLower sixItems DEFAULT_FILTERS_permissive) = 5"
    using js_slice_take [of sixItems 5] by (simp add: filterPRs_def all len)
  have "list_all (\<lambda>pr. isRelevantPR asciiLower pr DEFAULT_FILTERS_permissive) sixItems"
    by (simp add: sixItems_def acceptedItem_relevant)
  moreover have "filterPRs asciiLower sixItems DEFAULT_FILTERS_permissive
     \<noteq> filter (\<lambda>pr. isRelevantPR asciiLower pr DEFAULT_FILTERS_permissive) sixItems"
    using five len by (auto simp add: all)
  moreover have "length (filterPRs_permissive asciiLower sixItems DEFAULT_FILTERS) = 6"
    by (simp add: filterPRs_permissive_def all' len)
  ultimately show ?thesis using len five by simp
qed

text \<open>
  C8, amended: for every policy, \<open>filterPRs\<close> of \<open>src/lib/pr-filters.ts\<close> returns the
  first five of the items for which \<open>isRelevantPR\<close> holds, in input order, and the second
  copy returns all of them, in input order. The cap belongs to the copy of the function,
  not to the policy passed to it.
\<close>

theorem filterPRs_cap:
  "filterPRs lower prs flt = take 5 (filter (\<lambda>pr. isRelevantPR lower pr flt) prs) \<and>
   filterPRs_permissive lower prs flt = filter (\<lambda>pr. isRelevantPR_permissive lower pr flt) prs \<and>
   subseq (filterPRs lower prs flt) prs \<and>
   subseq (filterPRs_permissive lower prs flt) prs \<and>
   length (filterPRs lower prs flt) \<le> 5"
proof -
  have t: "filterPRs lower prs flt = take 5 (filter (\<lambda>pr. isRelevantPR lower pr flt) prs)"
    using js_slice_take [of _ 5] by (simp add: filterPRs_def)
  have "subseq (take 5 (filter (\<lambda>pr. isRelevantPR lower pr flt) prs))
          (filter (\<lambda>pr. isRelevantPR lower pr flt) prs)"
    by (metis append_take_drop_id prefix_def prefix_imp_subseq)
  then have "subseq (filterPRs lower prs flt) prs"
    unfolding t using subseq_filter_left subseq_order.order_trans by blast
  then show ?thesis
    by (simp add: t filterPRs_permissive_def)
qed

section \<open>What the orchestrator writes\<close>

lemma emits_andThen:
  assumes "emits w r full1" and "\<And>w1. emits w1 (k w1) full2"
  shows "emits w (andThen r k) (full1 @ full2)"
proof (cases r)
  case (Pair e w1)
  show ?thesis
  proof (cases e)
    case None
    from assms(1) Pair None have w1: "written w1 = written w @ full1"
      by (auto simp add: emits_def)
    from assms(2) [of w1] obtain p where
      p: "written (snd (k w1)) = written w1 @ p" "prefix p full2" "fst (k w1) = None \<longrightarrow> p = full2"
      by (auto simp add: emits_def)
    have "andThen r k = k w1" using Pair None by (simp add: andThen_def)
    with p w1 show ?thesis
      unfolding emits_def by (intro exI [of _ "full1 @ p"]) auto
  next
    case (Some x)
    from assms(1) Pair Some obtain p where "written w1 = written w @ p" "prefix p full1"
      by (auto simp add: emits_def)
    moreover have "andThen r k = (Some x, w1)" using Pair Some by (simp add: andThen_def)
    ultimately show ?thesis
      unfolding emits_def by (intro exI [of _ p]) (auto simp add: prefix_def)
  qed
qed

lemma emits_write: "emits w (writer_write tr f w) [f]"
  by (auto simp add: emits_def writer_write_def split: option.splits)

lemma emits_send: "emits w (send tr prId sec obj w) [frameOf prId sec obj]"
  by (simp add: send_def emits_write)

lemma emits_nothing: "emits w (r, w) []"
  by (simp add: emits_def)

lemma emits_throw: "emits w (Some e, w) full"
  by (simp add: emits_def)

lemma emits_forAwait:
  "emits w (forAwait tr prId sec cs w) (map (ContentFrame prId sec) (nonEmptyFragments cs))"
proof (induction cs arbitrary: w)
  case Nil
  then show ?case by (simp add: nonEmptyFragments_def emits_nothing)
next
  case (Cons c cs)
  show ?case
  proof (cases c)
    case None
    with Cons show ?thesis by (simp add: nonEmptyFragments_def)
  next
    case (Some t)
    show ?thesis
    proof (cases "t = []")
      case True
      with Some Cons show ?thesis by (simp add: nonEmptyFragments_def)
    next
      case False
      have "emits w (andThen (send tr prId sec (ContentObj t) w) (forAwait tr prId sec cs))
              ([frameOf prId sec (ContentObj t)]
                 @ map (ContentFrame prId sec) (nonEmptyFragments cs))"
        by (rule emits_andThen [OF emits_send Cons.IH])
      with Some False show ?thesis
        by (simp add: nonEmptyFragments_def frameOf_def)
    qed
  qed
qed

lemma emits_streamSection:
  "emits w (streamSection tr prId sec stream w)
     (sectionFrames prId sec (nonEmptyFragments (chunks stream)))"
proof -
  have last: "emits w2 (case failure stream of Some e \<Rightarrow> (Some e, w2)
                        | None \<Rightarrow> send tr prId sec DoneObj w2) [DoneFrame prId sec]" for w2
    using emits_send [of w2 tr prId sec DoneObj]
    by (cases "failure stream") (simp_all add: emits_throw frameOf_def)
  have "emits w (streamSection tr prId sec stream w)
          ([frameOf prId sec (ContentObj [])]
            @ (map (ContentFrame prId sec) (nonEmptyFragments (chunks stream))
            @ [DoneFrame prId sec]))"
    unfolding streamSection_def
    by (intro emits_andThen emits_send emits_forAwait last)
  then show ?thesis by (simp add: sectionFrames_def frameOf_def)
qed

lemma emits_tryBlock:
  assumes "devStream gen = Inr dev"
  shows "emits w (tryBlock tr pr gen dev w) (itemFrames (pr, gen))"
proof -
  have mk: "emits w1 (case marketingStream gen of Inl e \<Rightarrow> (Some e, w1)
                      | Inr mkt \<Rightarrow> streamSection tr (item_id pr) Marketing mkt w1)
              (sectionFrames (item_id pr) Marketing (fragmentsOf (marketingStream gen)))" for w1
    by (cases "marketingStream gen") (simp_all add: emits_throw emits_streamSection fragmentsOf_def)
  have "emits w (tryBlock tr pr gen dev w)
          (sectionFrames (item_id pr) Developer (nonEmptyFragments (chunks dev))
           @ sectionFrames (item_id pr) Marketing (fragmentsOf (marketingStream gen)))"
    unfolding tryBlock_def by (intro emits_andThen emits_streamSection mk)
  with assms show ?thesis by (simp add: itemFrames_def fragmentsOf_def)
qed

lemma write_cases:
  "(fst (writer_write tr f w) = None \<and> written (snd (writer_write tr f w)) = written w @ [f] \<and>
      errored (snd (writer_write tr f w)) = None) \<or>
   (fst (writer_write tr f w) \<noteq> None \<and> written (snd (writer_write tr f w)) = written w \<and>
      errored (snd (writer_write tr f w)) \<noteq> None)"
  by (simp add: writer_write_def split: option.splits)


lemma emitsWithErrors_processItem:
  "emitsWithErrors w (processItem tr job w) (itemFrames job) 1"
proof (cases "devStream (snd job)")
  case (Inl e)
  then have "processItem tr job w = (Some e, w)" by (simp add: processItem_def)
  then show ?thesis
    unfolding emitsWithErrors_def by (intro exI [of _ "[]"]) simp
next
  case (Inr dev)
  have em: "emits w (tryBlock tr (fst job) (snd job) dev w) (itemFrames job)"
    using emits_tryBlock [OF Inr, of w tr "fst job"] by simp
  obtain r w1 where tb: "tryBlock tr (fst job) (snd job) dev w = (r, w1)"
    by (cases "tryBlock tr (fst job) (snd job) dev w")
  from em tb obtain p where p: "written w1 = written w @ p" "prefix p (itemFrames job)"
    "r = None \<longrightarrow> p = itemFrames job"
    by (auto simp add: emits_def)
  show ?thesis
  proof (cases r)
    case None
    with Inr tb have "processItem tr job w = (None, w1)" by (simp add: processItem_def)
    with p None show ?thesis
      unfolding emitsWithErrors_def by (intro exI [of _ p] exI [of _ "[]"]) simp
  next
    case (Some prError)
    let ?m = "errorMessage (fst job) prError"
    obtain r2 w2 where se: "sendError tr ?m w1 = (r2, w2)" by (cases "sendError tr ?m w1")
    have pi: "processItem tr job w = andThen (r2, w2) (\<lambda>w2. (Some prError, w2))"
      using Inr tb Some se by (simp add: processItem_def)
    from write_cases [of tr "ErrorFrame ?m" w1] se
    consider "r2 = None" "written w2 = written w1 @ [ErrorFrame ?m]"
      | "r2 \<noteq> None" "written w2 = written w1"
      by (auto simp add: sendError_def)
    then show ?thesis
    proof cases
      case 1
      with pi have "processItem tr job w = (Some prError, w2)" by (simp add: andThen_def)
      with p 1 show ?thesis
        unfolding emitsWithErrors_def
        by (intro exI [of _ p] exI [of _ "[ErrorFrame ?m]"]) (simp add: isErrorFrame_def)
    next
      case 2
      then obtain e2 where "r2 = Some e2" by auto
      with pi have "processItem tr job w = (Some e2, w2)" by (simp add: andThen_def)
      with p 2 show ?thesis
        unfolding emitsWithErrors_def by (intro exI [of _ p] exI [of _ "[]"]) simp
    qed
  qed
qed

lemma emitsWithErrors_forLoop:
  "emitsWithErrors w (forLoop tr jobs w) (concat (map itemFrames jobs)) 1"
proof (induction jobs arbitrary: w)
  case Nil
  show ?case unfolding emitsWithErrors_def by (intro exI [of _ "[]"]) simp
next
  case (Cons job jobs)
  obtain r w1 where pi: "processItem tr job w = (r, w1)" by (cases "processItem tr job w")
  from emitsWithErrors_processItem [of w tr job] pi obtain p errs where
    p: "written w1 = written w @ p @ errs" "prefix p (itemFrames job)"
       "list_all isErrorFrame errs" "length errs \<le> 1" "r = None \<longrightarrow> p = itemFrames job \<and> errs = []"
    by (auto simp add: emitsWithErrors_def)
  show ?case
  proof (cases r)
    case None
    from Cons.IH [of w1] obtain p' errs' where
      p': "written (snd (forLoop tr jobs w1)) = written w1 @ p' @ errs'"
        "prefix p' (concat (map itemFrames jobs))"
        "list_all isErrorFrame errs'" "length errs' \<le> 1"
        "fst (forLoop tr jobs w1) = None \<longrightarrow> p' = concat (map itemFrames jobs) \<and> errs' = []"
      by (auto simp add: emitsWithErrors_def)
    have "forLoop tr (job # jobs) w = forLoop tr jobs w1"
      using pi None by (simp add: andThen_def)
    with p p' None show ?thesis
      unfolding emitsWithErrors_def
      by (intro exI [of _ "itemFrames job @ p'"] exI [of _ errs']) simp
  next
    case (Some e)
    have "forLoop tr (job # jobs) w = (Some e, w1)"
      using pi Some by (simp add: andThen_def)
    with p show ?thesis
      unfolding emitsWithErrors_def
      by (intro exI [of _ p] exI [of _ errs]) (auto simp add: prefix_def)
  qed
qed

lemma outerTry_shape:
  "\<exists>p errs. written (snd (outerTry tr jobs)) = p @ errs \<and>
      prefix p (concat (map itemFrames jobs)) \<and> list_all isErrorFrame errs \<and> length errs \<le> 2 \<and>
      (errored (snd (outerTry tr jobs)) \<noteq> None \<longrightarrow> length errs \<le> 1)"
proof -
  obtain r w where fl: "forLoop tr jobs newWriter = (r, w)" by (cases "forLoop tr jobs newWriter")
  from emitsWithErrors_forLoop [of newWriter tr jobs] fl obtain p errs where
    p: "written w = p @ errs" "prefix p (concat (map itemFrames jobs))"
       "list_all isErrorFrame errs" "length errs \<le> 1"
    by (auto simp add: emitsWithErrors_def newWriter_def)
  show ?thesis
  proof (cases r)
    case None
    with fl have "outerTry tr jobs = (None, w)" by (simp add: outerTry_def)
    with p show ?thesis
      by (intro exI [of _ p] exI [of _ errs]) simp
  next
    case (Some err)
    with fl have ot: "outerTry tr jobs = writer_write tr (ErrorFrame genericMessage) w"
      by (simp add: outerTry_def sendError_def)
    from write_cases [of tr "ErrorFrame genericMessage" w]
    show ?thesis
    proof (elim disjE conjE)
      assume "written (snd (writer_write tr (ErrorFrame genericMessage) w))
                = written w @ [ErrorFrame genericMessage]"
        and "errored (snd (writer_write tr (ErrorFrame genericMessage) w)) = None"
      with p ot show ?thesis
        by (intro exI [of _ p] exI [of _ "errs @ [ErrorFrame genericMessage]"])
           (simp add: isErrorFrame_def)
    next
      assume "written (snd (writer_write tr (ErrorFrame genericMessage) w)) = written w"
      with p ot show ?thesis
        by (intro exI [of _ p] exI [of _ errs]) simp
    qed
  qed
qed

lemma streamNotes_writer:
  "written (snd (streamNotes tr jobs)) = written (snd (outerTry tr jobs)) \<and>
   errored (snd (streamNotes tr jobs)) = errored (snd (outerTry tr jobs)) \<and>
   attempts (snd (streamNotes tr jobs)) = attempts (snd (outerTry tr jobs))"
  by (cases "outerTry tr jobs") (simp add: streamNotes_def writer_close_def)

lemma streamNotes_shape:
  "\<exists>p errs. written (snd (streamNotes tr jobs)) = p @ errs \<and>
      prefix p (concat (map itemFrames jobs)) \<and> list_all isErrorFrame errs \<and> length errs \<le> 2 \<and>
      (errored (snd (streamNotes tr jobs)) \<noteq> None \<longrightarrow> length errs \<le> 1)"
  using outerTry_shape [of tr jobs] by (simp add: streamNotes_writer)

section \<open>What every step keeps\<close>















section \<open>Generation that succeeds\<close>








section \<open>A transport that accepts every write\<close>














section \<open>Failure of a step\<close>




section \<open>Order of the frames\<close>

lemma split_in_append:
  assumes "xs @ ys = pre @ f # post"
  shows "(\<exists>u. xs = pre @ f # u \<and> post = u @ ys) \<or> (\<exists>v. pre = xs @ v \<and> ys = v @ f # post)"
  using assms by (auto simp add: append_eq_append_conv2 append_eq_Cons_conv Cons_eq_append_conv)

lemma sectionFrames_props:
  assumes "g \<in> set (sectionFrames prId sec frs)"
  shows "frameSection g = Some sec \<and> framePrId g = Some prId"
  using assms by (auto simp add: sectionFrames_def frameSection_def framePrId_def)

lemma sectionFrames_done: "DoneFrame prId sec \<in> set (sectionFrames prId sec frs)"
  by (simp add: sectionFrames_def)

lemma itemFrames_prId:
  assumes "g \<in> set (itemFrames job)"
  shows "framePrId g = Some (item_id (fst job))"
  using assms sectionFrames_props by (auto simp add: itemFrames_def)

lemma itemFrames_not_error:
  assumes "g \<in> set (itemFrames job)"
  shows "\<not> isErrorFrame g"
  using itemFrames_prId [OF assms] by (cases g) (simp_all add: isErrorFrame_def framePrId_def)

lemma itemFrames_marketing_done:
  "DoneFrame (item_id (fst job)) Marketing \<in> set (itemFrames job)"
  by (simp add: itemFrames_def sectionFrames_done)

lemma itemFrames_split:
  assumes "itemFrames job = pre @ f # u" and "frameSection f = Some Marketing"
  shows "DoneFrame (item_id (fst job)) Developer \<in> set pre \<and>
         (\<forall>g \<in> set u. frameSection g = Some Marketing)"
proof -
  let ?D = "sectionFrames (item_id (fst job)) Developer (fragmentsOf (devStream (snd job)))"
  let ?M = "sectionFrames (item_id (fst job)) Marketing (fragmentsOf (marketingStream (snd job)))"
  from assms(1) have "?D @ ?M = pre @ f # u" by (simp add: itemFrames_def)
  from split_in_append [OF this]
  show ?thesis
  proof
    assume "\<exists>w. ?D = pre @ f # w \<and> u = w @ ?M"
    then have "f \<in> set ?D" by auto
    from sectionFrames_props [OF this] assms(2) show ?thesis by simp
  next
    assume "\<exists>v. pre = ?D @ v \<and> ?M = v @ f # u"
    then obtain v where v: "pre = ?D @ v" "?M = v @ f # u" by blast
    have "DoneFrame (item_id (fst job)) Developer \<in> set pre"
      using v(1) sectionFrames_done by simp
    moreover have "\<forall>g \<in> set u. g \<in> set ?M" using v(2) by simp
    then have "\<forall>g \<in> set u. frameSection g = Some Marketing"
      using sectionFrames_props by blast
    ultimately show ?thesis by simp
  qed
qed

lemma ideal_prId:
  assumes "g \<in> set (concat (map itemFrames jobs))"
  shows "\<exists>job \<in> set jobs. framePrId g = Some (item_id (fst job))"
  using assms itemFrames_prId by auto

lemma ideal_not_error:
  assumes "g \<in> set (concat (map itemFrames jobs))"
  shows "\<not> isErrorFrame g"
  using assms itemFrames_not_error by auto

lemma ideal_developer_closed:
  assumes "concat (map itemFrames jobs) = pre @ f # post" and "frameSection f = Some Marketing"
  shows "\<exists>x. framePrId f = Some x \<and> DoneFrame x Developer \<in> set pre"
  using assms
proof (induction jobs arbitrary: pre)
  case Nil
  then show ?case by simp
next
  case (Cons job jobs)
  from Cons.prems(1) have "itemFrames job @ concat (map itemFrames jobs) = pre @ f # post"
    by simp
  from split_in_append [OF this]
  show ?case
  proof
    assume "\<exists>u. itemFrames job = pre @ f # u \<and> post = u @ concat (map itemFrames jobs)"
    then obtain u where u: "itemFrames job = pre @ f # u" by blast
    then have "f \<in> set (itemFrames job)" by simp
    from itemFrames_prId [OF this] itemFrames_split [OF u Cons.prems(2)]
    show ?thesis by simp
  next
    assume "\<exists>v. pre = itemFrames job @ v \<and> concat (map itemFrames jobs) = v @ f # post"
    then obtain v where v: "pre = itemFrames job @ v" "concat (map itemFrames jobs) = v @ f # post"
      by blast
    from Cons.IH [OF v(2) Cons.prems(2)] v(1) show ?thesis by auto
  qed
qed

lemma ideal_no_developer_after:
  assumes "concat (map itemFrames jobs) = pre @ f # post" and "frameSection f = Some Marketing"
    and "distinct (map (item_id \<circ> fst) jobs)" and "g \<in> set post"
  shows "\<not> (frameSection g = Some Developer \<and> framePrId g = framePrId f)"
  using assms(1,3)
proof (induction jobs arbitrary: pre)
  case Nil
  then show ?case by simp
next
  case (Cons job jobs)
  from Cons.prems(1) have "itemFrames job @ concat (map itemFrames jobs) = pre @ f # post"
    by simp
  from split_in_append [OF this]
  show ?case
  proof
    assume "\<exists>u. itemFrames job = pre @ f # u \<and> post = u @ concat (map itemFrames jobs)"
    then obtain u where u: "itemFrames job = pre @ f # u" "post = u @ concat (map itemFrames jobs)"
      by blast
    then have "f \<in> set (itemFrames job)" by simp
    from itemFrames_prId [OF this] have fid: "framePrId f = Some (item_id (fst job))" .
    from assms(4) u(2) consider "g \<in> set u" | "g \<in> set (concat (map itemFrames jobs))" by auto
    then show ?thesis
    proof cases
      case 1
      with itemFrames_split [OF u(1) assms(2)] show ?thesis by auto
    next
      case 2
      from ideal_prId [OF this] obtain j where "j \<in> set jobs" "framePrId g = Some (item_id (fst j))"
        by blast
      moreover have "item_id (fst job) \<notin> (item_id \<circ> fst) ` set jobs"
        using Cons.prems(2) by simp
      ultimately show ?thesis using fid by force
    qed
  next
    assume "\<exists>v. pre = itemFrames job @ v \<and> concat (map itemFrames jobs) = v @ f # post"
    then obtain v where v: "concat (map itemFrames jobs) = v @ f # post" by blast
    from Cons.IH [OF v] Cons.prems(2) show ?thesis by simp
  qed
qed

lemma ideal_previous_item_closed:
  assumes "concat (map itemFrames jobs) = pre @ f # post"
    and "distinct (map (item_id \<circ> fst) jobs)" and "Suc n < length jobs"
    and "framePrId f = Some (item_id (fst (jobs ! Suc n)))"
  shows "DoneFrame (item_id (fst (jobs ! n))) Marketing \<in> set pre"
proof -
  let ?A = "concat (map itemFrames (take (Suc n) jobs))"
  let ?B = "concat (map itemFrames (drop (Suc n) jobs))"
  have "concat (map itemFrames jobs) = ?A @ ?B"
    by (metis append_take_drop_id concat_append map_append)
  with assms(1) have "?A @ ?B = pre @ f # post" by simp
  from split_in_append [OF this]
  show ?thesis
  proof
    assume "\<exists>u. ?A = pre @ f # u \<and> post = u @ ?B"
    then obtain u where "?A = pre @ f # u" by blast
    then have "f \<in> set ?A" by (simp only: set_append list.set) simp
    from ideal_prId [OF this] obtain j where
      j: "j \<in> set (take (Suc n) jobs)" "framePrId f = Some (item_id (fst j))" by blast
    have later: "jobs ! Suc n \<in> set (drop (Suc n) jobs)"
      using assms(3) by (metis Cons_nth_drop_Suc list.set_intros(1))
    have "distinct (map (item_id \<circ> fst) (take (Suc n) jobs @ drop (Suc n) jobs))"
      using assms(2) by simp
    then have "(item_id \<circ> fst) ` set (take (Suc n) jobs) \<inter> (item_id \<circ> fst) ` set (drop (Suc n) jobs) = {}"
      by (simp only: map_append distinct_append set_map)
    with j(1) later have "item_id (fst j) \<noteq> item_id (fst (jobs ! Suc n))" by auto
    with j(2) assms(4) show ?thesis by simp
  next
    assume "\<exists>v. pre = ?A @ v \<and> ?B = v @ f # post"
    then obtain v where v: "pre = ?A @ v" by blast
    have "jobs ! n \<in> set (take (Suc n) jobs)"
      using assms(3) by (simp add: in_set_conv_nth) (metis Suc_lessD lessI nth_take length_take min.absorb2 less_imp_le_nat)
    then have "DoneFrame (item_id (fst (jobs ! n))) Marketing \<in> set ?A"
      using itemFrames_marketing_done [of "jobs ! n"] by (simp only: set_concat set_map) blast
    with v show ?thesis by simp
  qed
qed

lemma log_split:
  assumes "p @ errs = pre @ f # post" and "list_all isErrorFrame errs" and "\<not> isErrorFrame f"
  shows "\<exists>post1. p = pre @ f # post1 \<and> post = post1 @ errs"
proof -
  from split_in_append [OF assms(1)]
  show ?thesis
  proof
    assume "\<exists>u. p = pre @ f # u \<and> post = u @ errs"
    then show ?thesis by blast
  next
    assume "\<exists>v. pre = p @ v \<and> errs = v @ f # post"
    then have "f \<in> set errs" by auto
    with assms(2,3) show ?thesis by (simp add: list_all_iff)
  qed
qed

lemma two_items_log:
  "written (snd (streamNotes alwaysAccepts [(acceptedItem ''1'', genOk), (acceptedItem ''2'', genOk)]))
   = [ContentFrame (ascii ''1'') Developer [], ContentFrame (ascii ''1'') Developer (ascii ''hi''),
      DoneFrame (ascii ''1'') Developer,
      ContentFrame (ascii ''1'') Marketing [], ContentFrame (ascii ''1'') Marketing (ascii ''yo''),
      DoneFrame (ascii ''1'') Marketing,
      ContentFrame (ascii ''2'') Developer [], ContentFrame (ascii ''2'') Developer (ascii ''hi''),
      DoneFrame (ascii ''2'') Developer,
      ContentFrame (ascii ''2'') Marketing [], ContentFrame (ascii ''2'') Marketing (ascii ''yo''),
      DoneFrame (ascii ''2'') Marketing]"
  by (simp add: streamNotes_def outerTry_def writer_close_def newWriter_def processItem_def
      tryBlock_def streamSection_def send_def
      sendError_def writer_write_def andThen_def alwaysAccepts_def genOk_def
      acceptedItem_def frameOf_def ascii_def)

text \<open>
  C7. What the orchestrator wrote is a prefix of the items' frames, item after item, each
  item's developer frames up to the completion frame before its marketing frames up to
  the completion frame, followed by error frames only. So wherever a frame \<open>f\<close> stands in
  it: if \<open>f\<close> is a marketing frame, the developer completion frame of its item stands
  before it; and, the items having distinct identifiers, no developer frame of that item
  follows it, and if \<open>f\<close> belongs to item \<open>n + 1\<close>, the marketing completion frame of item
  \<open>n\<close> stands before it. This holds for every transport and every behaviour of the
  generation capability, so also for a stream that was cut short by a failure.
\<close>

theorem orchestrator_ordering:
  assumes log: "written (snd (streamNotes tr jobs)) = pre @ f # post"
  shows "(frameSection f = Some Marketing \<longrightarrow>
            (\<exists>x. framePrId f = Some x \<and> DoneFrame x Developer \<in> set pre)) \<and>
         (distinct (map (item_id \<circ> fst) jobs) \<longrightarrow>
            (frameSection f = Some Marketing \<longrightarrow>
               (\<forall>g \<in> set post. \<not> (frameSection g = Some Developer \<and> framePrId g = framePrId f))) \<and>
            (\<forall>n. Suc n < length jobs \<and> framePrId f = Some (item_id (fst (jobs ! Suc n))) \<longrightarrow>
               DoneFrame (item_id (fst (jobs ! n))) Marketing \<in> set pre)) \<and>
         (\<exists>p errs. pre @ f # post = p @ errs \<and> prefix p (concat (map itemFrames jobs)) \<and>
            list_all isErrorFrame errs)"
proof -
  from streamNotes_shape [of tr jobs] obtain p errs where
    sh: "written (snd (streamNotes tr jobs)) = p @ errs"
        "prefix p (concat (map itemFrames jobs))" "list_all isErrorFrame errs"
    by blast
  from sh(2) obtain q where q: "concat (map itemFrames jobs) = p @ q"
    by (auto simp add: prefix_def)
  have inside: "\<exists>post1. concat (map itemFrames jobs) = pre @ f # (post1 @ q) \<and> post = post1 @ errs"
    if "\<not> isErrorFrame f"
  proof -
    from log sh(1) have "p @ errs = pre @ f # post" by simp
    from log_split [OF this sh(3) that] q show ?thesis by auto
  qed
  have noerr_sec: "\<not> isErrorFrame f" if "frameSection f = Some s" for s
    using that by (cases f) (simp_all add: isErrorFrame_def frameSection_def)
  have noerr_id: "\<not> isErrorFrame f" if "framePrId f = Some x" for x
    using that by (cases f) (simp_all add: isErrorFrame_def framePrId_def)
  have a: "\<exists>x. framePrId f = Some x \<and> DoneFrame x Developer \<in> set pre"
    if m: "frameSection f = Some Marketing"
  proof -
    from inside [OF noerr_sec [OF m]] obtain post1 where
      "concat (map itemFrames jobs) = pre @ f # (post1 @ q)" by blast
    from ideal_developer_closed [OF this m] show ?thesis .
  qed
  have b: "\<not> (frameSection g = Some Developer \<and> framePrId g = framePrId f)"
    if m: "frameSection f = Some Marketing" and d: "distinct (map (item_id \<circ> fst) jobs)"
      and g: "g \<in> set post" for g
  proof -
    from inside [OF noerr_sec [OF m]] obtain post1 where
      i: "concat (map itemFrames jobs) = pre @ f # (post1 @ q)" "post = post1 @ errs" by blast
    from g i(2) consider "g \<in> set post1" | "g \<in> set errs" by auto
    then show ?thesis
    proof cases
      case 1
      then have "g \<in> set (post1 @ q)" by simp
      from ideal_no_developer_after [OF i(1) m d this] show ?thesis .
    next
      case 2
      with sh(3) have "isErrorFrame g" by (simp add: list_all_iff)
      then show ?thesis by (cases g) (simp_all add: isErrorFrame_def frameSection_def)
    qed
  qed
  have c: "DoneFrame (item_id (fst (jobs ! n))) Marketing \<in> set pre"
    if d: "distinct (map (item_id \<circ> fst) jobs)" and n: "Suc n < length jobs"
      and fi: "framePrId f = Some (item_id (fst (jobs ! Suc n)))" for n
  proof -
    from inside [OF noerr_id [OF fi]] obtain post1 where
      "concat (map itemFrames jobs) = pre @ f # (post1 @ q)" by blast
    from ideal_previous_item_closed [OF this d n fi] show ?thesis .
  qed
  have e: "\<exists>p errs. pre @ f # post = p @ errs \<and> prefix p (concat (map itemFrames jobs)) \<and>
            list_all isErrorFrame errs"
    using sh log by metis
  from a b c e show ?thesis by blast
qed

theorem orchestrator_ordering_witness:
  "distinct (map (item_id \<circ> fst) [(acceptedItem ''1'', genOk), (acceptedItem ''2'', genOk)]) \<and>
   written (snd (streamNotes alwaysAccepts [(acceptedItem ''1'', genOk), (acceptedItem ''2'', genOk)]))
     = [ContentFrame (ascii ''1'') Developer [], ContentFrame (ascii ''1'') Developer (ascii ''hi''),
        DoneFrame (ascii ''1'') Developer, ContentFrame (ascii ''1'') Marketing [],
        ContentFrame (ascii ''1'') Marketing (ascii ''yo''), DoneFrame (ascii ''1'') Marketing]
       @ ContentFrame (ascii ''2'') Developer []
       # [ContentFrame (ascii ''2'') Developer (ascii ''hi''), DoneFrame (ascii ''2'') Developer,
          ContentFrame (ascii ''2'') Marketing [], ContentFrame (ascii ''2'') Marketing (ascii ''yo''),
          DoneFrame (ascii ''2'') Marketing] \<and>
   framePrId (ContentFrame (ascii ''2'') Developer [])
     = Some (item_id (fst ([(acceptedItem ''1'', genOk), (acceptedItem ''2'', genOk)] ! Suc 0))) \<and>
   DoneFrame (item_id (fst ([(acceptedItem ''1'', genOk), (acceptedItem ''2'', genOk)] ! 0))) Marketing
     \<in> set [ContentFrame (ascii ''1'') Developer [], ContentFrame (ascii ''1'') Developer (ascii ''hi''),
        DoneFrame (ascii ''1'') Developer, ContentFrame (ascii ''1'') Marketing [],
        ContentFrame (ascii ''1'') Marketing (ascii ''yo''), DoneFrame (ascii ''1'') Marketing] \<and>
   frameSection (ContentFrame (ascii ''1'') Marketing []) = Some Marketing \<and>
   written (snd (streamNotes alwaysAccepts [(acceptedItem ''1'', genOk), (acceptedItem ''2'', genOk)]))
     = [ContentFrame (ascii ''1'') Developer [], ContentFrame (ascii ''1'') Developer (ascii ''hi''),
        DoneFrame (ascii ''1'') Developer]
       @ ContentFrame (ascii ''1'') Marketing []
       # [ContentFrame (ascii ''1'') Marketing (ascii ''yo''), DoneFrame (ascii ''1'') Marketing,
          ContentFrame (ascii ''2'') Developer [], ContentFrame (ascii ''2'') Developer (ascii ''hi''),
          DoneFrame (ascii ''2'') Developer,
          ContentFrame (ascii ''2'') Marketing [], ContentFrame (ascii ''2'') Marketing (ascii ''yo''),
          DoneFrame (ascii ''2'') Marketing] \<and>
   (\<exists>x. framePrId (ContentFrame (ascii ''1'') Marketing []) = Some x \<and>
        DoneFrame x Developer \<in> set [ContentFrame (ascii ''1'') Developer [],
          ContentFrame (ascii ''1'') Developer (ascii ''hi''), DoneFrame (ascii ''1'') Developer])"
proof -
  let ?jobs = "[(acceptedItem ''1'', genOk), (acceptedItem ''2'', genOk)]"
  let ?pre2 = "[ContentFrame (ascii ''1'') Developer [], ContentFrame (ascii ''1'') Developer (ascii ''hi''),
        DoneFrame (ascii ''1'') Developer, ContentFrame (ascii ''1'') Marketing [],
        ContentFrame (ascii ''1'') Marketing (ascii ''yo''), DoneFrame (ascii ''1'') Marketing]"
  let ?post2 = "[ContentFrame (ascii ''2'') Developer (ascii ''hi''), DoneFrame (ascii ''2'') Developer,
          ContentFrame (ascii ''2'') Marketing [], ContentFrame (ascii ''2'') Marketing (ascii ''yo''),
          DoneFrame (ascii ''2'') Marketing]"
  let ?pre1 = "[ContentFrame (ascii ''1'') Developer [],
          ContentFrame (ascii ''1'') Developer (ascii ''hi''), DoneFrame (ascii ''1'') Developer]"
  let ?post1 = "[ContentFrame (ascii ''1'') Marketing (ascii ''yo''), DoneFrame (ascii ''1'') Marketing,
          ContentFrame (ascii ''2'') Developer [], ContentFrame (ascii ''2'') Developer (ascii ''hi''),
          DoneFrame (ascii ''2'') Developer,
          ContentFrame (ascii ''2'') Marketing [], ContentFrame (ascii ''2'') Marketing (ascii ''yo''),
          DoneFrame (ascii ''2'') Marketing]"
  have d: "distinct (map (item_id \<circ> fst) ?jobs)"
    by (simp add: acceptedItem_def ascii_def)
  have l2: "written (snd (streamNotes alwaysAccepts ?jobs))
              = ?pre2 @ ContentFrame (ascii ''2'') Developer [] # ?post2"
    by (simp add: two_items_log)
  have l1: "written (snd (streamNotes alwaysAccepts ?jobs))
              = ?pre1 @ ContentFrame (ascii ''1'') Marketing [] # ?post1"
    by (simp add: two_items_log)
  have i2: "framePrId (ContentFrame (ascii ''2'') Developer []) = Some (item_id (fst (?jobs ! Suc 0)))"
    by (simp add: framePrId_def acceptedItem_def)
  have s1: "frameSection (ContentFrame (ascii ''1'') Marketing []) = Some Marketing"
    by (simp add: frameSection_def)
  from orchestrator_ordering [OF l2] d i2
  have c2: "DoneFrame (item_id (fst (?jobs ! 0))) Marketing \<in> set ?pre2"
    by (simp del: set_simps list.set)
  from orchestrator_ordering [OF l1] s1
  have c1: "\<exists>x. framePrId (ContentFrame (ascii ''1'') Marketing []) = Some x \<and>
        DoneFrame x Developer \<in> set ?pre1"
    by blast
  from d l2 i2 c2 s1 l1 c1 show ?thesis by (intro conjI)
qed

section \<open>Finding the blank line\<close>

lemma js_slice_from_drop: "js_slice_from xs (int k + 2) = drop (k + 2) xs"
  by (simp add: js_slice_from_def js_slice_def Let_def min_def nat_add_distrib)

lemma js_slice_from_five: "js_slice_from xs 5 = drop 5 xs"
  by (simp add: js_slice_from_def js_slice_def Let_def min_def)

lemma indexOf_blank_line:
  "0x0A \<notin> set a \<Longrightarrow> js_indexOf (a @ 0x0A # 0x0A # rest) dblNewline = Some (length a)"
  by (induction a) (auto simp add: dblNewline_def)

lemma indexOf_single_newline:
  "0x0A \<notin> set a \<Longrightarrow> c \<noteq> 0x0A \<Longrightarrow>
   js_indexOf (a @ 0x0A # c # rest) dblNewline
     = map_option (\<lambda>i. length a + 1 + i) (js_indexOf (c # rest) dblNewline)"
proof (induction a)
  case Nil
  then show ?case
    by (simp add: dblNewline_def option.map_comp comp_def)
next
  case (Cons x a)
  then show ?case
    by (simp add: dblNewline_def option.map_comp comp_def)
qed

lemma indexOf_append:
  "js_indexOf b dblNewline = Some i \<Longrightarrow> js_indexOf (b @ c) dblNewline = Some i"
proof (induction b arbitrary: i)
  case Nil
  then show ?case by (simp add: dblNewline_def)
next
  case (Cons x b)
  show ?case
  proof (cases "prefix dblNewline (x # b)")
    case True
    with Cons.prems have "i = 0" by simp
    moreover from True have "prefix dblNewline ((x # b) @ c)"
      using prefix_prefix by fastforce
    ultimately show ?thesis by simp
  next
    case False
    with Cons.prems obtain j where j: "js_indexOf b dblNewline = Some j" "i = Suc j" by auto
    from j(1) have "2 \<le> length b" using js_indexOf_bound [OF j(1)] by (simp add: dblNewline_def)
    with False have "\<not> prefix dblNewline ((x # b) @ c)"
      by (cases b; cases "tl b") (auto simp add: dblNewline_def)
    with Cons.IH [OF j(1)] j(2) show ?thesis by simp
  qed
qed

section \<open>Trimming\<close>

lemma js_trim_id:
  assumes "s \<noteq> []" and "\<not> isWhiteSpace (hd s)" and "\<not> isWhiteSpace (last s)"
  shows "js_trim s = s"
proof -
  from assms(1,2) have 1: "dropWhile isWhiteSpace s = s" by (cases s) simp_all
  from assms(1,3) have "dropWhile isWhiteSpace (rev s) = rev s"
    by (cases "rev s") (simp_all add: hd_rev [symmetric])
  with 1 show ?thesis by (simp add: js_trim_def)
qed

lemma js_trim_leading_space:
  assumes "s \<noteq> []" and "\<not> isWhiteSpace (hd s)" and "\<not> isWhiteSpace (last s)"
  shows "js_trim (0x20 # s) = s"
proof -
  have sp: "isWhiteSpace 0x20" by (simp add: isWhiteSpace_def)
  have 1: "dropWhile isWhiteSpace (0x20 # s) = s"
    using assms(1,2) sp by (cases s) simp_all
  from assms(1,3) have "dropWhile isWhiteSpace (rev s) = rev s"
    by (cases "rev s") (simp_all add: hd_rev [symmetric])
  with 1 show ?thesis by (simp add: js_trim_def del: dropWhile.simps)
qed

section \<open>The JSON text of a frame\<close>

lemma hexDigit_not_newline: "hexDigit n \<noteq> 0x0A"
proof -
  have "hexDigit n \<in> set (ascii ''0123456789abcdef'')"
    unfolding hexDigit_def by (rule nth_mem) (simp add: ascii_def)
  then show ?thesis by (auto simp add: ascii_def)
qed

lemma unicodeEscape_no_newline: "0x0A \<notin> set (unicodeEscape c)"
  using hexDigit_not_newline by (auto simp add: unicodeEscape_def)

lemma surrogate_not_newline:
  "isHighSurrogate c \<Longrightarrow> c \<noteq> 0x0A" "isLowSurrogate c \<Longrightarrow> c \<noteq> 0x0A"
  by (auto simp add: isHighSurrogate_def isLowSurrogate_def)

lemma escapeUnit_no_newline: "0x0A \<notin> set (escapeUnit c)"
  by (simp add: escapeUnit_def unicodeEscape_no_newline)

lemma jsonEscape_no_newline: "0x0A \<notin> set (jsonEscape s)"
  by (induction s rule: jsonEscape.induct)
     (simp_all add: escapeUnit_no_newline surrogate_not_newline)

lemma quoteJSONString_no_newline: "0x0A \<notin> set (quoteJSONString s)"
  by (simp add: quoteJSONString_def jsonEscape_no_newline)

lemma jsonKey_no_newline: "0x0A \<notin> set (jsonKey ''prId'')" "0x0A \<notin> set (jsonKey ''section'')"
  "0x0A \<notin> set (jsonKey ''content'')" "0x0A \<notin> set (jsonKey ''done'')"
  "0x0A \<notin> set (jsonKey ''message'')"
  by (simp_all add: jsonKey_def ascii_def)

lemma frameJson_no_newline: "0x0A \<notin> set (frameJson f)"
proof (cases f)
  case (ContentFrame i s c)
  have "0x0A \<notin> set (ascii ''{'')" "0x0A \<notin> set (ascii '','')" "0x0A \<notin> set (ascii ''}'')"
    by (simp_all add: ascii_def)
  with ContentFrame show ?thesis
    by (simp add: frameJson_def stringifySend_def quoteJSONString_no_newline jsonKey_no_newline)
next
  case (DoneFrame i s)
  have "0x0A \<notin> set (ascii ''{'')" "0x0A \<notin> set (ascii '','')" "0x0A \<notin> set (ascii ''}'')"
    "0x0A \<notin> set (ascii ''true'')"
    by (simp_all add: ascii_def)
  with DoneFrame show ?thesis
    by (simp add: frameJson_def stringifySend_def quoteJSONString_no_newline jsonKey_no_newline)
next
  case (ErrorFrame m)
  have "0x0A \<notin> set (ascii ''{'')" "0x0A \<notin> set (ascii ''}'')"
    by (simp_all add: ascii_def)
  with ErrorFrame show ?thesis
    by (simp add: frameJson_def stringifyMessage_def quoteJSONString_no_newline jsonKey_no_newline)
qed

lemma frameJson_braces:
  "frameJson f \<noteq> [] \<and> hd (frameJson f) = 0x7B \<and> last (frameJson f) = 0x7D"
  by (cases f) (simp_all add: frameJson_def stringifySend_def stringifyMessage_def ascii_def)

lemma not_space: "\<not> isWhiteSpace 0x7B" "\<not> isWhiteSpace 0x7D" "\<not> isWhiteSpace 0x64"
  "\<not> isWhiteSpace 0x65"
  by (simp_all add: isWhiteSpace_def)

section \<open>One record\<close>

lemma processRecord_data:
  "processRecord parse run (ascii ''data: '' @ frameJson f) st
     = (case parse (frameJson f) of
          None \<Rightarrow> st
        | Some p \<Rightarrow> st\<lparr>notesByPR := applyPayload run (notesByPR st) p, decoded := decoded st @ [p]\<rparr>)"
proof -
  let ?body = "ascii ''data: '' @ frameJson f"
  have t: "js_trim ?body = ?body"
    using frameJson_braces [of f] by (intro js_trim_id) (simp_all add: ascii_def not_space)
  have s: "startsWith ?body (ascii ''data:'')"
    by (simp add: startsWith_def ascii_def)
  have d: "js_slice_from ?body 5 = 0x20 # frameJson f"
    by (simp add: js_slice_from_five ascii_def)
  have j: "js_trim (0x20 # frameJson f) = frameJson f"
    using frameJson_braces [of f] by (intro js_trim_leading_space) (simp_all add: not_space)
  from frameJson_braces [of f] show ?thesis
    by (simp add: processRecord_def t s d j Let_def)
qed

lemma processRecord_error:
  "processRecord parse run (ascii ''event: error'' @ [0x0A] @ ascii ''data: '' @ frameJson f) st = st"
proof -
  let ?body = "ascii ''event: error'' @ [0x0A] @ ascii ''data: '' @ frameJson f"
  have t: "js_trim ?body = ?body"
    using frameJson_braces [of f] by (intro js_trim_id) (simp_all add: ascii_def not_space)
  have s: "\<not> startsWith ?body (ascii ''data:'')"
    by (simp add: startsWith_def ascii_def)
  show ?thesis
    by (simp only: processRecord_def t s Let_def) simp
qed

lemma drain_step:
  assumes "js_indexOf (body @ 0x0A # 0x0A # rest) dblNewline = Some (length body)"
  shows "drainBuffer parse run (st\<lparr>buffer := body @ 0x0A # 0x0A # rest\<rparr>)
           = drainBuffer parse run (processRecord parse run body (st\<lparr>buffer := rest\<rparr>))"
  using assms
  by (subst drainBuffer.simps) (simp add: js_slice_take js_slice_from_drop)

lemma drain_empty: "drainBuffer parse run (st\<lparr>buffer := []\<rparr>) = st\<lparr>buffer := []\<rparr>"
  by (subst drainBuffer.simps) (simp add: dblNewline_def)

lemma data_record_index:
  "js_indexOf ((ascii ''data: '' @ frameJson f) @ 0x0A # 0x0A # rest) dblNewline
     = Some (length (ascii ''data: '' @ frameJson f))"
  by (rule indexOf_blank_line) (simp add: frameJson_no_newline, simp add: ascii_def)

lemma error_record_index:
  "js_indexOf ((ascii ''event: error'' @ [0x0A] @ ascii ''data: '' @ frameJson f) @ 0x0A # 0x0A # rest)
      dblNewline
     = Some (length (ascii ''event: error'' @ [0x0A] @ ascii ''data: '' @ frameJson f))"
proof -
  have 1: "0x0A \<notin> set (ascii ''event: error'')" by (simp add: ascii_def)
  have 2: "js_indexOf ((ascii ''data: '' @ frameJson f) @ 0x0A # 0x0A # rest) dblNewline
             = Some (length (ascii ''data: '' @ frameJson f))"
    by (rule data_record_index)
  have 3: "ascii ''data: '' = 0x64 # ascii ''ata: ''" by (simp add: ascii_def)
  have "js_indexOf (ascii ''event: error'' @ 0x0A # 0x64 # (ascii ''ata: '' @ frameJson f @ 0x0A # 0x0A # rest))
           dblNewline
        = map_option (\<lambda>i. length (ascii ''event: error'') + 1 + i)
            (js_indexOf (0x64 # (ascii ''ata: '' @ frameJson f @ 0x0A # 0x0A # rest)) dblNewline)"
    by (rule indexOf_single_newline [OF 1]) simp
  with 2 show ?thesis by (simp add: 3)
qed

lemma drain_section_frame:
  assumes "\<not> isErrorFrame f"
  shows "drainBuffer parse run (st\<lparr>buffer := encodeFrame f @ rest\<rparr>)
           = drainBuffer parse run
               (case parse (frameJson f) of
                  None \<Rightarrow> st\<lparr>buffer := rest\<rparr>
                | Some p \<Rightarrow> st\<lparr>buffer := rest, notesByPR := applyPayload run (notesByPR st) p,
                               decoded := decoded st @ [p]\<rparr>)"
proof -
  from assms have e: "encodeFrame f @ rest = (ascii ''data: '' @ frameJson f) @ 0x0A # 0x0A # rest"
    by (cases f) (simp_all add: encodeFrame_def isErrorFrame_def)
  show ?thesis
    unfolding e
    by (subst drain_step [OF data_record_index]) (simp add: processRecord_data split: option.splits)
qed

lemma drain_error_frame:
  "drainBuffer parse run (st\<lparr>buffer := encodeFrame (ErrorFrame m) @ rest\<rparr>)
     = drainBuffer parse run (st\<lparr>buffer := rest\<rparr>)"
proof -
  let ?f = "ErrorFrame m"
  have e: "encodeFrame ?f @ rest
      = (ascii ''event: error'' @ [0x0A] @ ascii ''data: '' @ frameJson ?f) @ 0x0A # 0x0A # rest"
    by (simp add: encodeFrame_def)
  show ?thesis
    unfolding e
    by (subst drain_step [OF error_record_index]) (simp only: processRecord_error)
qed

section \<open>The stream cut into pieces\<close>

lemma processRecord_buffer_update:
  "processRecord parse run r (st\<lparr>buffer := x\<rparr>) = (processRecord parse run r st)\<lparr>buffer := x\<rparr>"
  by (simp add: processRecord_def Let_def split: option.splits)

lemma drain_idle:
  "js_indexOf (buffer st) dblNewline = None \<Longrightarrow> drainBuffer parse run st = st"
  by (subst drainBuffer.simps) simp

lemma drain_more:
  "drainBuffer parse run ((drainBuffer parse run st)\<lparr>buffer := buffer (drainBuffer parse run st) @ c\<rparr>)
     = drainBuffer parse run (st\<lparr>buffer := buffer st @ c\<rparr>)"
proof (induction parse run st rule: drainBuffer.induct)
  case (1 parse run st)
  show ?case
  proof (cases "js_indexOf (buffer st) dblNewline")
    case None
    then show ?thesis by (simp add: drain_idle)
  next
    case (Some i)
    let ?b = "buffer st"
    let ?st' = "processRecord parse run (js_slice ?b 0 (int i)) (st\<lparr>buffer := js_slice_from ?b (int i + 2)\<rparr>)"
    have bound: "i + 2 \<le> length ?b"
      using js_indexOf_bound [OF Some] by (simp add: dblNewline_def)
    have l: "drainBuffer parse run st = drainBuffer parse run ?st'"
      by (subst drainBuffer.simps) (simp add: Some)
    have b': "buffer ?st' = drop (i + 2) ?b"
      by (simp add: processRecord_buffer js_slice_from_drop)
    have "drainBuffer parse run (st\<lparr>buffer := ?b @ c\<rparr>)
        = drainBuffer parse run (processRecord parse run (js_slice (?b @ c) 0 (int i))
            (st\<lparr>buffer := js_slice_from (?b @ c) (int i + 2)\<rparr>))"
      by (subst drainBuffer.simps) (simp add: indexOf_append [OF Some])
    also have "\<dots> = drainBuffer parse run (?st'\<lparr>buffer := buffer ?st' @ c\<rparr>)"
      using bound
      by (simp add: js_slice_take js_slice_from_drop processRecord_buffer_update
          processRecord_buffer)
    finally have r: "drainBuffer parse run (st\<lparr>buffer := ?b @ c\<rparr>)
        = drainBuffer parse run (?st'\<lparr>buffer := buffer ?st' @ c\<rparr>)" .
    from "1.IH" [OF Some] l r show ?thesis by simp
  qed
qed

lemma readLoop_drain:
  "readLoop parse run (drainBuffer parse run st) pieces
     = drainBuffer parse run (st\<lparr>buffer := buffer st @ concat pieces\<rparr>)"
proof (induction pieces arbitrary: st)
  case Nil
  then show ?case by simp
next
  case (Cons c pieces)
  have "readLoop parse run (drainBuffer parse run st) (c # pieces)
      = readLoop parse run (drainBuffer parse run (st\<lparr>buffer := buffer st @ c\<rparr>)) pieces"
    by (simp add: drain_more)
  also have "\<dots> = drainBuffer parse run (st\<lparr>buffer := buffer st @ c @ concat pieces\<rparr>)"
    using Cons.IH [of "st\<lparr>buffer := buffer st @ c\<rparr>"] by simp
  finally show ?case by simp
qed

lemma readLoop_whole:
  "readLoop parse run \<lparr>buffer = [], notesByPR = n, decoded = d\<rparr> pieces
     = drainBuffer parse run \<lparr>buffer = concat pieces, notesByPR = n, decoded = d\<rparr>"
proof -
  let ?st = "\<lparr>buffer = [], notesByPR = n, decoded = d\<rparr>"
  have "drainBuffer parse run ?st = ?st" by (rule drain_idle) (simp add: dblNewline_def)
  with readLoop_drain [of parse run ?st pieces] show ?thesis by simp
qed

section \<open>A whole stream of section frames\<close>

lemma drain_frames:
  assumes "\<forall>f \<in> set frames. \<not> isErrorFrame f"
    and "\<forall>f \<in> set frames. parse (frameJson f) = Some (payloadOf f)"
  shows "drainBuffer parse run \<lparr>buffer = concat (map encodeFrame frames), notesByPR = n, decoded = d\<rparr>
     = \<lparr>buffer = [], notesByPR = foldl (applyPayload run) n (map payloadOf frames),
        decoded = d @ map payloadOf frames\<rparr>"
  using assms
proof (induction frames arbitrary: n d)
  case Nil
  show ?case using drain_empty [of parse run "\<lparr>buffer = [], notesByPR = n, decoded = d\<rparr>"] by simp
next
  case (Cons f frames)
  then have f: "\<not> isErrorFrame f" "parse (frameJson f) = Some (payloadOf f)" by simp_all
  let ?st = "\<lparr>buffer = [], notesByPR = n, decoded = d\<rparr>"
  have "drainBuffer parse run \<lparr>buffer = concat (map encodeFrame (f # frames)), notesByPR = n, decoded = d\<rparr>
      = drainBuffer parse run (?st\<lparr>buffer := encodeFrame f @ concat (map encodeFrame frames)\<rparr>)"
    by simp
  also have "\<dots> = drainBuffer parse run \<lparr>buffer = concat (map encodeFrame frames),
       notesByPR = applyPayload run n (payloadOf f), decoded = d @ [payloadOf f]\<rparr>"
    by (subst drain_section_frame [OF f(1)]) (simp add: f(2))
  also have "\<dots> = \<lparr>buffer = [],
       notesByPR = foldl (applyPayload run) (applyPayload run n (payloadOf f)) (map payloadOf frames),
       decoded = (d @ [payloadOf f]) @ map payloadOf frames\<rparr>"
    using Cons.prems by (intro Cons.IH) simp_all
  finally show ?case by simp
qed

lemma sectionName_inject: "sectionName a = sectionName b \<Longrightarrow> a = b"
  by (cases a; cases b) (simp_all add: sectionName_def ascii_def)

lemma payloadOf_inject:
  assumes "payloadOf f = payloadOf g"
  shows "f = g"
  using assms sectionName_inject
  by (cases f; cases g) (auto simp add: payloadOf_def)

lemma readLoop_error_only:
  "readLoop parse run \<lparr>buffer = [], notesByPR = n, decoded = []\<rparr> [encodeFrame (ErrorFrame message)]
     = \<lparr>buffer = [], notesByPR = n, decoded = []\<rparr>"
proof -
  let ?st = "\<lparr>buffer = [], notesByPR = n, decoded = []\<rparr>"
  have "readLoop parse run ?st [encodeFrame (ErrorFrame message)]
      = drainBuffer parse run (?st\<lparr>buffer := encodeFrame (ErrorFrame message) @ []\<rparr>)"
    by (simp add: readLoop_whole)
  also have "\<dots> = drainBuffer parse run (?st\<lparr>buffer := []\<rparr>)"
    by (rule drain_error_frame)
  also have "\<dots> = ?st" using drain_empty [of parse run ?st] by simp
  finally show ?thesis .
qed

lemma section_frames_round_trip:
  assumes "\<forall>f \<in> set frames. \<not> isErrorFrame f"
    and "\<forall>f \<in> set frames. parse (frameJson f) = Some (payloadOf f)"
    and "concat pieces = concat (map encodeFrame frames)"
  shows "readLoop parse run \<lparr>buffer = [], notesByPR = notes0, decoded = []\<rparr> pieces
           = \<lparr>buffer = [], notesByPR = foldl (applyPayload run) notes0 (map payloadOf frames),
              decoded = map payloadOf frames\<rparr>"
  using drain_frames [OF assms(1,2), where run = run and n = notes0 and d = "[]"] assms(3)
  by (simp add: readLoop_whole)

lemma readLoop_error_cut:
  "readLoop parse run \<lparr>buffer = [], notesByPR = n, decoded = []\<rparr>
     [take k (encodeFrame (ErrorFrame message)), drop k (encodeFrame (ErrorFrame message))]
   = \<lparr>buffer = [], notesByPR = n, decoded = []\<rparr>"
proof -
  have "readLoop parse run \<lparr>buffer = [], notesByPR = n, decoded = []\<rparr>
          [take k (encodeFrame (ErrorFrame message)), drop k (encodeFrame (ErrorFrame message))]
      = drainBuffer parse run \<lparr>buffer = encodeFrame (ErrorFrame message), notesByPR = n, decoded = []\<rparr>"
    unfolding readLoop_whole by simp
  also have "\<dots> = readLoop parse run \<lparr>buffer = [], notesByPR = n, decoded = []\<rparr>
                        [encodeFrame (ErrorFrame message)]"
    unfolding readLoop_whole by simp
  finally show ?thesis unfolding readLoop_error_only .
qed

text \<open>
  C2. Encoding a sequence of frames, sending the bytes in pieces and decoding them gives
  the sequence back. This fails for a sequence with an error frame: the record of an
  error frame begins with \<open>event: error\<close>, the read loop passes over every record that
  does not begin with \<open>data:\<close>, and so the stream of one error frame decodes to no frame
  at all, whatever \<open>JSON.parse\<close> and the updaters do and wherever the stream is cut. The
  frame sent is not among the decoded ones.
\<close>

theorem error_frame_breaks_round_trip:
  "decoded (readLoop parse run \<lparr>buffer = [], notesByPR = notes0, decoded = []\<rparr>
      [encodeFrame (ErrorFrame message)]) = [] \<and>
   decoded (readLoop parse run \<lparr>buffer = [], notesByPR = notes0, decoded = []\<rparr>
      [take k (encodeFrame (ErrorFrame message)), drop k (encodeFrame (ErrorFrame message))]) = [] \<and>
   decoded (readLoop parse run \<lparr>buffer = [], notesByPR = notes0, decoded = []\<rparr>
      [encodeFrame (ErrorFrame message)]) \<noteq> map payloadOf [ErrorFrame message]"
  unfolding readLoop_error_only readLoop_error_cut by simp

text \<open>
  C6, evaluated on the code. The claim: an error frame arriving on the stream is passed on
  to the caller as a terminal signal, the notes accumulated so far being kept. For every
  error message, every \<open>JSON.parse\<close>, every accumulated notes and whatever the updaters
  of the notes do, the record \<open>sendError\<close>
  writes leaves the state of the read loop as it was: the notes are kept, but nothing is
  decoded and no error is shown by \<open>generateNotes\<close>.
\<close>

theorem error_frame_is_dropped:
  "readLoop parse run \<lparr>buffer = [], notesByPR = notes0, decoded = []\<rparr> [encodeFrame (ErrorFrame message)]
     = \<lparr>buffer = [], notesByPR = notes0, decoded = []\<rparr> \<and>
   generateNotes parse run notes0 [encodeFrame (ErrorFrame message)] None
     = \<lparr>notesShown = notes0, errorShown = None\<rparr>"
  unfolding generateNotes_def readLoop_error_only by simp


end
